theory Spec2Isabelle
  imports Complex_Main "HOL-Library.Sublist" "HOL-Library.Word"
begin

section \<open>Python strings\<close>

text \<open>
  A Python \<^verbatim>\<open>str\<close> is a sequence of Unicode code points. The program handles
  three characters outside ASCII (the upper half block U+2580 and the two ballot
  boxes U+2610 and U+2612), so a string is modelled as the list of its code points.
\<close>

type_synonym ustr = "nat list"

definition ascii :: "string \<Rightarrow> ustr" where
  "ascii s = map of_char s"

text \<open>
  \<^verbatim>\<open>s.split(sep)\<close> for a separator of one character: the pieces between the
  occurrences of the separator, always at least one piece.
\<close>

fun str_split :: "'a \<Rightarrow> 'a list \<Rightarrow> 'a list list" where
  "str_split sep [] = [[]]"
| "str_split sep (c # cs) =
     (if c = sep then [] # str_split sep cs
      else (case str_split sep cs of
              [] \<Rightarrow> [[c]]
            | piece # pieces \<Rightarrow> (c # piece) # pieces))"

text \<open>
  \<^verbatim>\<open>os.path.basename(p)\<close> on POSIX: \<^verbatim>\<open>i = p.rfind('/') + 1; return p[i:]\<close>,
  the text after the last slash.
\<close>

definition basename :: "ustr \<Rightarrow> ustr" where
  "basename p = rev (takeWhile (\<lambda>c. c \<noteq> of_char CHR ''/'') (rev p))"

text \<open>
  \<^verbatim>\<open>s.replace(old, new)\<close>: the occurrences of \<^verbatim>\<open>old\<close> are found from left to
  right without overlap. With an empty \<^verbatim>\<open>old\<close> Python puts \<^verbatim>\<open>new\<close> before every
  character and at the end.
\<close>

function replace_from :: "'a list \<Rightarrow> 'a list \<Rightarrow> 'a list \<Rightarrow> 'a list" where
  "replace_from old new s =
     (if s = [] then []
      else if old \<noteq> [] \<and> prefix old s
        then new @ replace_from old new (drop (length old) s)
      else hd s # replace_from old new (tl s))"
  by pat_completeness auto
termination
  by (relation "measure (\<lambda>(old, new, s). length s)") auto

declare replace_from.simps [simp del]

definition replace :: "'a list \<Rightarrow> 'a list \<Rightarrow> 'a list \<Rightarrow> 'a list" where
  "replace s old new =
     (if old = [] then new @ concat (map (\<lambda>c. c # new) s)
      else replace_from old new s)"

text \<open>Formatting an integer in an f-string: its decimal digits, with a minus sign.\<close>

fun str_nat :: "nat \<Rightarrow> ustr" where
  "str_nat n = (if n < 10 then [48 + n] else str_nat (n div 10) @ [48 + n mod 10])"

declare str_nat.simps [simp del]

definition str_int :: "int \<Rightarrow> ustr" where
  "str_int i = (if i < 0 then of_char CHR ''-'' # str_nat (nat (- i)) else str_nat (nat i))"

section \<open>Exceptions\<close>

text \<open>
  The exceptions the program's own code can raise, and \<open>LibraryError\<close> for an
  exception raised inside a collaborator (the MIME sniffer, the file system, the
  highlighter, the image library); it carries the name of the exception class.
  \<open>IndexError\<close> is the out-of-bounds branch of \<^verbatim>\<open>getpixel\<close>, \<open>ValueError\<close> and
  \<open>TypeError\<close> are the failures of unpacking a pixel into three names.
\<close>

datatype exn = ZeroDivisionError | IndexError | ValueError | TypeError | LibraryError string

definition lift_lib :: "string + 'a \<Rightarrow> exn + 'a" where
  "lift_lib r = (case r of Inl name \<Rightarrow> Inl (LibraryError name) | Inr v \<Rightarrow> Inr v)"

section \<open>Floating-point division\<close>

text \<open>
  Python's \<^verbatim>\<open>/\<close> yields a binary64 float. A finite float is modelled by the rational
  it denotes; \<open>round_double\<close> rounds a rational to the nearest number with a 53-bit
  significand, ties to even, which is what IEEE 754 division and Python's
  int-to-float conversion compute. The exponent range is not modelled: every quotient
  of bitmap sides lies far inside it.
\<close>

function bit_length :: "int \<Rightarrow> int" where
  "bit_length n = (if n \<le> 0 then 0 else 1 + bit_length (n div 2))"
  by pat_completeness auto
termination
  by (relation "measure nat") auto

declare bit_length.simps [simp del]

definition pow2 :: "int \<Rightarrow> rat" where
  "pow2 k = (if 0 \<le> k then 2 ^ nat k else 1 / 2 ^ nat (- k))"

definition floor_log2 :: "rat \<Rightarrow> int" where
  \<comment> \<open>for \<open>q > 0\<close>: the \<open>e\<close> with \<open>2 ^ e \<le> q < 2 ^ (e + 1)\<close>\<close>
  "floor_log2 q =
     (let (a, b) = quotient_of q;
          k = bit_length a - bit_length b
      in if pow2 k \<le> q then k else k - 1)"

definition round_half_even :: "rat \<Rightarrow> int" where
  "round_half_even m =
     (let n = \<lfloor>m\<rfloor>; r = m - of_int n
      in if r < 1 / 2 then n
         else if 1 / 2 < r then n + 1
         else if even n then n else n + 1)"

definition round_double :: "rat \<Rightarrow> rat" where
  "round_double q =
     (if q = 0 then 0
      else let ulp = pow2 (floor_log2 \<bar>q\<bar> - 52)
           in sgn q * of_int (round_half_even (\<bar>q\<bar> / ulp)) * ulp)"

definition int_truediv :: "int \<Rightarrow> int \<Rightarrow> exn + rat" where
  \<comment> \<open>\<^verbatim>\<open>a / b\<close> on two ints: the correctly rounded quotient\<close>
  "int_truediv a b =
     (if b = 0 then Inl ZeroDivisionError else Inr (round_double (of_int a / of_int b)))"

definition int_float_truediv :: "int \<Rightarrow> rat \<Rightarrow> exn + rat" where
  \<comment> \<open>\<^verbatim>\<open>a / x\<close> with \<open>a\<close> an int and \<open>x\<close> a float: \<open>a\<close> is converted first\<close>
  "int_float_truediv a x =
     (if x = 0 then Inl ZeroDivisionError
      else Inr (round_double (round_double (of_int a) / x)))"

definition int_of_float :: "rat \<Rightarrow> int" where
  \<comment> \<open>\<^verbatim>\<open>int(x)\<close> truncates towards zero\<close>
  "int_of_float x = (if 0 \<le> x then \<lfloor>x\<rfloor> else \<lceil>x\<rceil>)"

section \<open>Bitmaps and the rasterizer\<close>

text \<open>
  A decoded image as the program uses it: \<^verbatim>\<open>img.size\<close> and \<^verbatim>\<open>img.getpixel\<close>.
  A pixel of a multi-band image is a tuple of band values, a pixel of a single-band
  image is a plain number.
\<close>

datatype pixel = Band int | Bands "int list"

record bitmap =
  bm_width :: nat
  bm_height :: nat
  bm_data :: "nat \<Rightarrow> nat \<Rightarrow> pixel"

text \<open>
  \<^verbatim>\<open>img.getpixel((x, y))\<close>: a negative coordinate counts from the far edge, and a
  coordinate outside the image raises \<^verbatim>\<open>IndexError\<close>.
\<close>

definition getpixel :: "bitmap \<Rightarrow> int \<times> int \<Rightarrow> exn + pixel" where
  "getpixel img xy =
     (let x = (if fst xy < 0 then int (bm_width img) + fst xy else fst xy);
          y = (if snd xy < 0 then int (bm_height img) + snd xy else snd xy)
      in if 0 \<le> x \<and> x < int (bm_width img) \<and> 0 \<le> y \<and> y < int (bm_height img)
         then Inr (bm_data img (nat x) (nat y))
         else Inl IndexError)"

text \<open>The tuple assignment \<^verbatim>\<open>r, g, b = ...\<close>.\<close>

fun unpack3 :: "pixel \<Rightarrow> exn + int \<times> int \<times> int" where
  "unpack3 (Bands [r, g, b]) = Inr (r, g, b)"
| "unpack3 (Bands bs) = Inl ValueError"
| "unpack3 (Band v) = Inl TypeError"

text \<open>\<^verbatim>\<open>range(start, stop, step)\<close> for a positive step.\<close>

function py_range :: "int \<Rightarrow> int \<Rightarrow> int \<Rightarrow> int list" where
  "py_range start stop step =
     (if step \<le> 0 \<or> stop \<le> start then []
      else start # py_range (start + step) stop step)"
  by pat_completeness auto
termination
  by (relation "measure (\<lambda>(start, stop, step). nat (stop - start))") auto

declare py_range.simps [simp del]

definition half_block :: nat where
  "half_block = 0x2580"

definition newline :: nat where
  "newline = 10"

definition cell_unicode :: "int \<times> int \<times> int \<Rightarrow> int \<times> int \<times> int \<Rightarrow> ustr" where
  \<comment> \<open>\<^verbatim>\<open>f"[rgb({r1},{g1},{b1}) on rgb({r2},{g2},{b2})]"\<close>, the half block, \<^verbatim>\<open>"[/]"\<close>\<close>
  "cell_unicode upper lower =
     (case (upper, lower) of ((r1, g1, b1), (r2, g2, b2)) \<Rightarrow>
        ascii ''[rgb('' @ str_int r1 @ ascii '','' @ str_int g1 @ ascii '','' @ str_int b1
        @ ascii '') on rgb('' @ str_int r2 @ ascii '','' @ str_int g2 @ ascii '',''
        @ str_int b2 @ ascii '')]'' @ [half_block] @ ascii ''[/]'')"

definition cell_plain :: "int \<times> int \<times> int \<Rightarrow> ustr" where
  \<comment> \<open>\<^verbatim>\<open>f"[on rgb({r},{g},{b})] [/]"\<close>\<close>
  "cell_plain px =
     (case px of (r, g, b) \<Rightarrow>
        ascii ''[on rgb('' @ str_int r @ ascii '','' @ str_int g @ ascii '',''
        @ str_int b @ ascii '')] [/]'')"

text \<open>
  The body of the inner loop: one character cell for column \<open>x\<close> of the row pair
  starting at \<open>y\<close>. The first failing call ends it, as the exception would.
\<close>

definition cell_at :: "bitmap \<Rightarrow> bool \<Rightarrow> int \<Rightarrow> int \<Rightarrow> exn + ustr" where
  "cell_at img unicode y x =
     (if unicode then
        (case getpixel img (x, y) of Inl e \<Rightarrow> Inl e | Inr p1 \<Rightarrow>
         case unpack3 p1 of Inl e \<Rightarrow> Inl e | Inr upper \<Rightarrow>
         case getpixel img (x, y + 1) of Inl e \<Rightarrow> Inl e | Inr p2 \<Rightarrow>
         case unpack3 p2 of Inl e \<Rightarrow> Inl e | Inr lower \<Rightarrow>
           Inr (cell_unicode upper lower))
      else
        (case getpixel img (x, y) of Inl e \<Rightarrow> Inl e | Inr p \<Rightarrow>
         case unpack3 p of Inl e \<Rightarrow> Inl e | Inr px \<Rightarrow>
           Inr (cell_plain px)))"

text \<open>\<^verbatim>\<open>for x in range(dest_width)\<close>, with \<open>output\<close> threaded through.\<close>

fun columns_loop :: "bitmap \<Rightarrow> bool \<Rightarrow> int \<Rightarrow> int list \<Rightarrow> ustr \<Rightarrow> exn + ustr" where
  "columns_loop img unicode y [] output = Inr output"
| "columns_loop img unicode y (x # xs) output =
     (case cell_at img unicode y x of
        Inl e \<Rightarrow> Inl e
      | Inr cell \<Rightarrow> columns_loop img unicode y xs (output @ cell))"

text \<open>\<^verbatim>\<open>for y in range(0, dest_height, 2)\<close>: a row of cells, then a line break.\<close>

fun rows_loop :: "bitmap \<Rightarrow> bool \<Rightarrow> int list \<Rightarrow> int list \<Rightarrow> ustr \<Rightarrow> exn + ustr" where
  "rows_loop img unicode xs [] output = Inr output"
| "rows_loop img unicode xs (y # ys) output =
     (case columns_loop img unicode y xs output of
        Inl e \<Rightarrow> Inl e
      | Inr output' \<Rightarrow> rows_loop img unicode xs ys (output' @ [newline]))"

text \<open>
  The destination height (the first four lines of \<^verbatim>\<open>img_to_string\<close>): the scale and
  the quotient are floats, \<^verbatim>\<open>int\<close> truncates, and an odd height is bumped by one.
\<close>

definition dest_height_of :: "bitmap \<Rightarrow> int \<Rightarrow> exn + int" where
  "dest_height_of img dest_width =
     (case int_truediv (int (bm_width img)) dest_width of Inl e \<Rightarrow> Inl e | Inr scale \<Rightarrow>
      case int_float_truediv (int (bm_height img)) scale of Inl e \<Rightarrow> Inl e | Inr q \<Rightarrow>
        let dest_height = int_of_float q
        in Inr (if dest_height mod 2 \<noteq> 0 then dest_height + 1 else dest_height))"

text \<open>
  \<^verbatim>\<open>img_to_string\<close>. The resampler \<^verbatim>\<open>img.resize\<close> belongs to the image library
  and is a parameter: it is given the bitmap and the requested size and returns the
  resized bitmap or the name of the exception it raised.
\<close>

type_synonym resizer = "bitmap \<Rightarrow> int \<times> int \<Rightarrow> string + bitmap"

definition img_to_string :: "resizer \<Rightarrow> bitmap \<Rightarrow> int \<Rightarrow> bool \<Rightarrow> exn + ustr" where
  "img_to_string resize img dest_width unicode =
     (case dest_height_of img dest_width of Inl e \<Rightarrow> Inl e | Inr dest_height \<Rightarrow>
      case lift_lib (resize img (dest_width, dest_height)) of Inl e \<Rightarrow> Inl e | Inr img' \<Rightarrow>
        rows_loop img' unicode (py_range 0 dest_width 1) (py_range 0 dest_height 2) [])"

section \<open>The preview pane\<close>

text \<open>
  What \<^verbatim>\<open>preview.update\<close> is given: a \<^verbatim>\<open>Syntax\<close> object (identified with the
  source text \<^verbatim>\<open>Syntax.from_path\<close> loaded; its options are constants of the call),
  a \<^verbatim>\<open>Markdown\<close> object (identified with the markup it was built from), a plain
  string, or a \<^verbatim>\<open>Traceback\<close> of the exception being handled.
\<close>

datatype renderable =
    Blank
  | SyntaxR ustr
  | MarkdownR ustr
  | StrR ustr
  | TracebackR exn

text \<open>
  What \<^verbatim>\<open>self.sub_title\<close> is assigned: a string, the \<^verbatim>\<open>Text\<close> assembled in
  \<^verbatim>\<open>on_exception\<close> (a bold red ERROR and the warning emoji), or the object
  \<^verbatim>\<open>Reactive("Mime Type")\<close>.
\<close>

datatype subtitle = SubStr ustr | ErrorWarning | ReactiveObj ustr

text \<open>
  The widgets the handlers touch: the \<^verbatim>\<open>Static\<close> with id \<^verbatim>\<open>code\<close> (its content
  and CSS classes), its parent container with id \<^verbatim>\<open>code-view\<close> (its CSS classes
  and scroll offset; \<open>scroll_animating\<close> tells whether a scroll animation is under
  way), and the subtitle of the app.
\<close>

record pane =
  content :: renderable
  preview_classes :: "string set"
  viewbox_classes :: "string set"
  scroll_offset :: "nat \<times> nat"
  scroll_animating :: bool
  sub_title :: subtitle

definition initial_pane :: pane where
  "initial_pane =
     \<lparr>content = Blank, preview_classes = {}, viewbox_classes = {},
      scroll_offset = (0, 0), scroll_animating = False, sub_title = SubStr []\<rparr>"

definition scroll_home :: "bool \<Rightarrow> pane \<Rightarrow> pane" where
  \<comment> \<open>without animation the offset is set at once; with it the offset moves later\<close>
  "scroll_home animate st =
     (if animate then st\<lparr>scroll_animating := True\<rparr>
      else st\<lparr>scroll_offset := (0, 0), scroll_animating := False\<rparr>)"

text \<open>
  The collaborators. Each returns its value or the name of the exception it raised.
  \<open>open_rb\<close> is \<^verbatim>\<open>open(path, "rb")\<close> and yields the bytes of the file;
  \<open>read_text\<close> is \<^verbatim>\<open>open(path, 'r')\<close> followed by \<^verbatim>\<open>f.read()\<close>.
\<close>

record env =
  magic_from_file :: "ustr \<Rightarrow> string + ustr"
  magic_from_buffer :: "8 word list \<Rightarrow> string + ustr"
  open_rb :: "ustr \<Rightarrow> string + 8 word list"
  read_text :: "ustr \<Rightarrow> string + ustr"
  syntax_from_path :: "ustr \<Rightarrow> string + ustr"
  image_open :: "ustr \<Rightarrow> string + bitmap"
  image_resize :: resizer

definition on_exception :: "exn \<Rightarrow> pane \<Rightarrow> pane" where
  "on_exception e st = st\<lparr>content := TracebackR e, sub_title := ErrorWarning\<rparr>"

definition ballot_box :: nat where
  "ballot_box = 0x2610"

definition ballot_box_x :: nat where
  "ballot_box_x = 0x2612"

definition checkbox_markup :: "ustr \<Rightarrow> ustr" where
  \<comment> \<open>the two calls of \<^verbatim>\<open>replace\<close> on \<^verbatim>\<open>f.read()\<close>; the new texts end in U+2610 and U+2612\<close>
  "checkbox_markup text =
     replace (replace text (ascii ''-[ ]'') (ascii ''- '' @ [ballot_box]))
       (ascii ''-[x]'') (ascii ''- '' @ [ballot_box_x])"

definition on_markdown_view :: "env \<Rightarrow> pane \<Rightarrow> ustr \<Rightarrow> pane" where
  "on_markdown_view ev st path =
     (case lift_lib (read_text ev path) of
        Inl e \<Rightarrow> on_exception e st
      | Inr text \<Rightarrow>
          (scroll_home False
            (st\<lparr>viewbox_classes := insert ''code-view'' (viewbox_classes st) - {''image-view''},
                preview_classes := preview_classes st - {''image''},
                content := MarkdownR (checkbox_markup text)\<rparr>))
          \<lparr>sub_title := SubStr path\<rparr>)"

definition on_code_view :: "env \<Rightarrow> pane \<Rightarrow> ustr \<Rightarrow> pane" where
  "on_code_view ev st path =
     (case lift_lib (syntax_from_path ev path) of
        Inl e \<Rightarrow> on_exception e st
      | Inr syntax \<Rightarrow>
          (scroll_home False
            (st\<lparr>viewbox_classes := insert ''code-view'' (viewbox_classes st) - {''image-view''},
                preview_classes := preview_classes st - {''image''},
                content := SyntaxR syntax\<rparr>))
          \<lparr>sub_title := SubStr path\<rparr>)"

definition on_image_view :: "env \<Rightarrow> pane \<Rightarrow> ustr \<Rightarrow> pane" where
  "on_image_view ev st path =
     (case lift_lib (image_open ev path) of
        Inl e \<Rightarrow> on_exception e st
      | Inr img \<Rightarrow>
          (case img_to_string (image_resize ev) img 80 True of
             Inl e \<Rightarrow> on_exception e st
           | Inr image_view \<Rightarrow>
               st\<lparr>viewbox_classes := insert ''image-view'' (viewbox_classes st - {''code-view''}),
                  preview_classes := insert ''image'' (preview_classes st),
                  content := StrR image_view,
                  sub_title := SubStr path\<rparr>))"

definition on_t_plain_ext :: "env \<Rightarrow> pane \<Rightarrow> ustr \<Rightarrow> ustr \<Rightarrow> pane" where
  "on_t_plain_ext ev st file_ext path =
     (if file_ext = ascii ''md'' then on_markdown_view ev st path
      else on_code_view ev st path)"

text \<open>
  \<^verbatim>\<open>on_text_plain\<close>. The buffer sniff and the \<^verbatim>\<open>open\<close> before it stand outside
  every \<^verbatim>\<open>try\<close>: an exception raised there leaves the handler (\<open>Inl\<close>).
\<close>

definition on_text_plain :: "env \<Rightarrow> pane \<Rightarrow> ustr \<Rightarrow> ustr \<Rightarrow> exn + pane" where
  "on_text_plain ev st mime path =
     (if mime = ascii ''text/plain'' then
        (let file_ext = str_split (of_char CHR ''.'') (basename path)
         in if length file_ext > 1 then Inr (on_t_plain_ext ev st (file_ext ! 1) path)
            else
              (case lift_lib (open_rb ev path) of Inl e \<Rightarrow> Inl e | Inr bytes \<Rightarrow>
               case lift_lib (magic_from_buffer ev (take 2048 bytes)) of Inl e \<Rightarrow> Inl e
               | Inr sniffed \<Rightarrow>
                   Inr (st\<lparr>content := StrR mime, sub_title := ReactiveObj (ascii ''Mime Type'')\<rparr>)))
      else Inr (on_code_view ev st path))"

definition on_text :: "env \<Rightarrow> pane \<Rightarrow> ustr \<Rightarrow> ustr \<Rightarrow> exn + pane" where
  "on_text ev st mime path =
     (if mime = ascii ''text/plain'' then on_text_plain ev st mime path
      else Inr (on_code_view ev st path))"

text \<open>
  \<^verbatim>\<open>on_directory_tree_file_selected\<close>, for the event's path. The path sniff stands
  outside every \<^verbatim>\<open>try\<close>. The result is \<open>Inl\<close> when an exception leaves the handler
  and the new pane otherwise.
\<close>

definition top_level_type :: "ustr \<Rightarrow> ustr" where
  \<comment> \<open>\<^verbatim>\<open>mime.split('/')[0]\<close>; the list of pieces is never empty\<close>
  "top_level_type mime = hd (str_split (of_char CHR ''/'') mime)"

definition on_directory_tree_file_selected :: "env \<Rightarrow> pane \<Rightarrow> ustr \<Rightarrow> exn + pane" where
  "on_directory_tree_file_selected ev st path =
     (case lift_lib (magic_from_file ev path) of Inl e \<Rightarrow> Inl e | Inr mime \<Rightarrow>
        let tlt = top_level_type mime
        in if tlt = ascii ''application'' then Inr (on_code_view ev st path)
           else if tlt = ascii ''text'' then on_text ev st mime path
           else if tlt = ascii ''image'' then Inr (on_image_view ev st path)
           else Inr (st\<lparr>content := StrR mime, sub_title := ReactiveObj (ascii ''Mime Type'')\<rparr>))"

section \<open>Notions used to state the properties\<close>

text \<open>
  The extension \<^verbatim>\<open>on_text_plain\<close> passes on: the second piece of the base name
  split at the dots, when there is more than one piece.
\<close>

definition file_ext_of :: "ustr \<Rightarrow> ustr option" where
  "file_ext_of path =
     (let file_ext = str_split (of_char CHR ''.'') (basename path)
      in if length file_ext > 1 then Some (file_ext ! 1) else None)"

text \<open>
  The four ways a selection is rendered: the three view methods, and the two
  statements that show the MIME string itself (they occur twice in the source, in
  the last case of \<^verbatim>\<open>on_directory_tree_file_selected\<close> and in \<^verbatim>\<open>on_text_plain\<close>).
\<close>

datatype render_mode = CodeView | MarkdownView | ImageView | RawMimeLabel

definition raw_mime_label :: "ustr \<Rightarrow> pane \<Rightarrow> pane" where
  "raw_mime_label mime st =
     st\<lparr>content := StrR mime, sub_title := ReactiveObj (ascii ''Mime Type'')\<rparr>"

fun render :: "env \<Rightarrow> pane \<Rightarrow> ustr \<Rightarrow> ustr \<Rightarrow> render_mode \<Rightarrow> pane" where
  "render ev st mime path CodeView = on_code_view ev st path"
| "render ev st mime path MarkdownView = on_markdown_view ev st path"
| "render ev st mime path ImageView = on_image_view ev st path"
| "render ev st mime path RawMimeLabel = raw_mime_label mime st"

text \<open>
  The decision table of the specification, in its words: the top-level type
  \<^verbatim>\<open>application\<close> gives the code view; \<^verbatim>\<open>text\<close> with the MIME \<^verbatim>\<open>text/plain\<close>
  gives the markdown view for the extension \<^verbatim>\<open>md\<close>, the code view for any other
  extension and the raw label without an extension; any other \<^verbatim>\<open>text\<close> MIME gives
  the code view; \<^verbatim>\<open>image\<close> gives the image view; anything else the raw label.
\<close>

definition spec_select :: "ustr \<Rightarrow> ustr option \<Rightarrow> render_mode" where
  "spec_select mime ext =
     (if top_level_type mime = ascii ''application'' then CodeView
      else if top_level_type mime = ascii ''text'' then
        (if mime = ascii ''text/plain'' then
           (case ext of
              Some e \<Rightarrow> if e = ascii ''md'' then MarkdownView else CodeView
            | None \<Rightarrow> RawMimeLabel)
         else CodeView)
      else if top_level_type mime = ascii ''image'' then ImageView
      else RawMimeLabel)"

text \<open>
  The lines of a rendered string: the pieces between the line breaks, without the
  empty piece after the last line break.
\<close>

definition lines_of :: "ustr \<Rightarrow> ustr list" where
  "lines_of s = butlast (str_split newline s)"

definition line_count :: "exn + ustr \<Rightarrow> nat option" where
  "line_count r = (case r of Inl e \<Rightarrow> None | Inr output \<Rightarrow> Some (length (lines_of output)))"

text \<open>The markup of one character cell, in either mode.\<close>

definition is_cell :: "bool \<Rightarrow> ustr \<Rightarrow> bool" where
  "is_cell unicode c =
     (if unicode then (\<exists>upper lower. c = cell_unicode upper lower)
      else (\<exists>px. c = cell_plain px))"

text \<open>A bitmap whose pixels all have three bands.\<close>

definition rgb_bitmap :: "bitmap \<Rightarrow> bool" where
  "rgb_bitmap img =
     (\<forall>x < bm_width img. \<forall>y < bm_height img. \<exists>r g b. bm_data img x y = Bands [r, g, b])"

text \<open>
  The destination height in the words of the specification: the ceiling of the
  original height divided by the scale, bumped by one when odd.
\<close>

definition spec_adjusted_height :: "nat \<Rightarrow> nat \<Rightarrow> int \<Rightarrow> int" where
  "spec_adjusted_height w h dest_width =
     (let computed = \<lceil>(of_nat h :: rat) / (of_nat w / of_int dest_width)\<rceil>
      in if odd computed then computed + 1 else computed)"

text \<open>
  The substitution in the words of the specification: reading the text from left to
  right, every literal \<^verbatim>\<open>-[ ]\<close> becomes a dash, a space and the empty ballot box,
  and every literal \<^verbatim>\<open>-[x]\<close> becomes a dash, a space and the crossed ballot box.
\<close>

function spec_checkboxes :: "ustr \<Rightarrow> ustr" where
  "spec_checkboxes s =
     (if s = [] then []
      else if prefix (ascii ''-[ ]'') s
        then ascii ''- '' @ [ballot_box] @ spec_checkboxes (drop 4 s)
      else if prefix (ascii ''-[x]'') s
        then ascii ''- '' @ [ballot_box_x] @ spec_checkboxes (drop 4 s)
      else hd s # spec_checkboxes (tl s))"
  by pat_completeness auto
termination
  by (relation "measure length") auto

declare spec_checkboxes.simps [simp del]

section \<open>Example collaborators\<close>

text \<open>
  A small file system and library stand-ins, for evaluating the handlers on concrete
  selections. The resampler takes the nearest source pixel and refuses an empty size.
\<close>

definition nearest_resize :: resizer where
  "nearest_resize img sz =
     (if fst sz < 1 \<or> snd sz < 1 then Inl ''ValueError''
      else Inr \<lparr>bm_width = nat (fst sz), bm_height = nat (snd sz),
                bm_data = (\<lambda>x y. bm_data img (x * bm_width img div nat (fst sz))
                                              (y * bm_height img div nat (snd sz)))\<rparr>)"

definition solid_bitmap :: "nat \<Rightarrow> nat \<Rightarrow> bitmap" where
  "solid_bitmap w h = \<lparr>bm_width = w, bm_height = h, bm_data = (\<lambda>x y. Bands [255, 128, 0])\<rparr>"

definition sniff_table :: "(string \<times> string) list" where
  "sniff_table =
     [(''notes.md'', ''text/plain''), (''archive.tar.gz'', ''text/plain''),
      (''notes.md.txt'', ''text/plain''), (''README'', ''text/plain''),
      (''.bashrc'', ''text/plain''), (''photo.png'', ''image/png''),
      (''song.mp3'', ''audio/mpeg''), (''tool.bin'', ''application/octet-stream''),
      (''page.html'', ''text/html''),
      (''/home/u/proj.d/archive.tar.gz'', ''text/plain''),
      (''docs.v2/notes.md.txt'', ''text/plain''),
      (''dir.d/README'', ''text/plain'')]"

definition example_sniff :: "ustr \<Rightarrow> string + ustr" where
  "example_sniff path =
     (case map_of (map (\<lambda>(name, mime). (ascii name, ascii mime)) sniff_table) path of
        None \<Rightarrow> Inl ''FileNotFoundError''
      | Some mime \<Rightarrow> Inr mime)"

definition example_env :: env where
  "example_env =
     \<lparr>magic_from_file = example_sniff,
      magic_from_buffer = (\<lambda>buffer. Inr (ascii ''text/x-shellscript'')),
      open_rb = (\<lambda>path. Inr (replicate 3000 35)),
      read_text = (\<lambda>path. Inr (ascii ''-[ ] milk -[x] eggs'')),
      syntax_from_path = (\<lambda>path. Inr (ascii ''x = 1'')),
      image_open = (\<lambda>path. Inr (solid_bitmap 160 5)),
      image_resize = nearest_resize\<rparr>"

section \<open>Splitting strings\<close>

lemma str_split_not_Nil: "str_split sep s \<noteq> []"
  by (induction s) (auto split: list.splits)

lemma str_split_unfold:
  "str_split sep s =
     takeWhile (\<lambda>c. c \<noteq> sep) s #
       (case dropWhile (\<lambda>c. c \<noteq> sep) s of [] \<Rightarrow> [] | c # rest \<Rightarrow> str_split sep rest)"
proof (induction s)
  case Nil
  show ?case by simp
next
  case (Cons a s)
  show ?case
  proof (cases "a = sep")
    case True
    then show ?thesis by simp
  next
    case False
    then show ?thesis
      using Cons.IH by (cases "str_split sep s") (auto simp: str_split_not_Nil)
  qed
qed

lemma hd_str_split: "hd (str_split sep s) = takeWhile (\<lambda>c. c \<noteq> sep) s"
  by (subst str_split_unfold) simp

lemma length_str_split_gt1: "Suc 0 < length (str_split sep s) \<longleftrightarrow> sep \<in> set s"
proof (cases "dropWhile (\<lambda>c. c \<noteq> sep) s")
  case Nil
  then have "sep \<notin> set s" by (auto simp: dropWhile_eq_Nil_conv)
  then show ?thesis by (subst str_split_unfold) (simp add: Nil)
next
  case (Cons c rest)
  have "sep \<in> set s"
  proof (rule ccontr)
    assume "sep \<notin> set s"
    then have "dropWhile (\<lambda>c. c \<noteq> sep) s = []" by (auto simp: dropWhile_eq_Nil_conv)
    with Cons show False by simp
  qed
  moreover have "str_split sep rest \<noteq> []" by (rule str_split_not_Nil)
  ultimately show ?thesis by (subst str_split_unfold) (simp add: Cons)
qed

lemma str_split_second:
  assumes "sep \<in> set s"
  shows "str_split sep s ! Suc 0 = takeWhile (\<lambda>c. c \<noteq> sep) (tl (dropWhile (\<lambda>c. c \<noteq> sep) s))"
proof -
  from assms obtain c rest where d: "dropWhile (\<lambda>c. c \<noteq> sep) s = c # rest"
    by (cases "dropWhile (\<lambda>c. c \<noteq> sep) s") (auto simp: dropWhile_eq_Nil_conv)
  have "str_split sep s ! Suc 0 = hd (str_split sep rest)"
    by (subst str_split_unfold) (simp add: d hd_conv_nth str_split_not_Nil)
  then show ?thesis by (simp add: d hd_str_split)
qed

lemma file_ext_of_eq:
  "file_ext_of path =
     (if of_char CHR ''.'' \<in> set (basename path)
      then Some (takeWhile (\<lambda>c. c \<noteq> of_char CHR ''.'')
                   (tl (dropWhile (\<lambda>c. c \<noteq> of_char CHR ''.'') (basename path))))
      else None)"
  by (simp add: file_ext_of_def Let_def length_str_split_gt1 str_split_second del: of_char_Char)

section \<open>Dispatch\<close>

lemma on_text_plain_by_ext:
  "on_text_plain ev st (ascii ''text/plain'') path =
     (case file_ext_of path of
        Some ext \<Rightarrow> Inr (on_t_plain_ext ev st ext path)
      | None \<Rightarrow>
          (case lift_lib (open_rb ev path) of Inl e \<Rightarrow> Inl e | Inr bytes \<Rightarrow>
           case lift_lib (magic_from_buffer ev (take 2048 bytes)) of Inl e \<Rightarrow> Inl e
           | Inr sniffed \<Rightarrow> Inr (raw_mime_label (ascii ''text/plain'') st)))"
  by (simp add: on_text_plain_def file_ext_of_def Let_def raw_mime_label_def del: of_char_Char
        split: sum.splits)

lemma top_level_type_text_plain: "top_level_type (ascii ''text/plain'') = ascii ''text''"
  by (simp add: top_level_type_def ascii_def)

lemma ascii_text_distinct:
  "ascii ''text'' \<noteq> ascii ''application''" "ascii ''text'' \<noteq> ascii ''image''"
  by (simp_all add: ascii_def)

lemma selected_text_plain:
  assumes "magic_from_file ev path = Inr (ascii ''text/plain'')"
  shows "on_directory_tree_file_selected ev st path =
           on_text_plain ev st (ascii ''text/plain'') path"
  using assms
  by (simp add: on_directory_tree_file_selected_def lift_lib_def Let_def on_text_def
        top_level_type_text_plain ascii_text_distinct)

text \<open>
  C1. Once the path sniff has returned a MIME string, the handler renders the
  selection in the mode the decision table of the specification gives for that MIME
  string and the extension of the path. Where the table gives the raw label for
  \<^verbatim>\<open>text/plain\<close> without an extension, the handler first opens the file and sniffs
  its first bytes, and the label is shown when both calls return.
\<close>

theorem render_mode_follows_decision_table:
  assumes sniff: "magic_from_file ev path = Inr mime"
    and buffer: "mime = ascii ''text/plain'' \<and> file_ext_of path = None \<longrightarrow>
                   (\<exists>bytes sniffed. open_rb ev path = Inr bytes
                      \<and> magic_from_buffer ev (take 2048 bytes) = Inr sniffed)"
  shows "on_directory_tree_file_selected ev st path =
           Inr (render ev st mime path (spec_select mime (file_ext_of path)))"
proof (cases "mime = ascii ''text/plain''")
  case True
  have sel: "on_directory_tree_file_selected ev st path =
               on_text_plain ev st (ascii ''text/plain'') path"
    using sniff True by (simp add: selected_text_plain)
  show ?thesis
  proof (cases "file_ext_of path")
    case None
    with buffer True obtain bytes sniffed where
      "open_rb ev path = Inr bytes" "magic_from_buffer ev (take 2048 bytes) = Inr sniffed"
      by blast
    then show ?thesis
      using True None
      by (simp add: sel on_text_plain_by_ext lift_lib_def spec_select_def
            top_level_type_text_plain ascii_text_distinct)
  next
    case (Some ext)
    then show ?thesis
      using True
      by (simp add: sel on_text_plain_by_ext on_t_plain_ext_def spec_select_def
            top_level_type_text_plain ascii_text_distinct)
  qed
next
  case False
  then show ?thesis
    using sniff
    by (simp add: on_directory_tree_file_selected_def lift_lib_def Let_def on_text_def
          spec_select_def raw_mime_label_def)
qed

theorem render_mode_follows_decision_table_witness:
  "on_directory_tree_file_selected example_env initial_pane (ascii ''notes.md'') =
     Inr (on_markdown_view example_env initial_pane (ascii ''notes.md''))
   \<and> on_directory_tree_file_selected example_env initial_pane (ascii ''README'') =
     Inr (raw_mime_label (ascii ''text/plain'') initial_pane)
   \<and> on_directory_tree_file_selected example_env initial_pane (ascii ''photo.png'') =
     Inr (on_image_view example_env initial_pane (ascii ''photo.png''))"
proof -
  have s1: "magic_from_file example_env (ascii ''notes.md'') = Inr (ascii ''text/plain'')"
    and s2: "magic_from_file example_env (ascii ''README'') = Inr (ascii ''text/plain'')"
    and s3: "magic_from_file example_env (ascii ''photo.png'') = Inr (ascii ''image/png'')"
    by (simp_all add: example_env_def example_sniff_def sniff_table_def ascii_def)
  have e1: "file_ext_of (ascii ''notes.md'') = Some (ascii ''md'')"
    and e2: "file_ext_of (ascii ''README'') = None"
    by (simp_all add: file_ext_of_def basename_def ascii_def)
  have b2: "\<exists>bytes sniffed. open_rb example_env (ascii ''README'') = Inr bytes
              \<and> magic_from_buffer example_env (take 2048 bytes) = Inr sniffed"
    by (simp add: example_env_def)
  have m1: "spec_select (ascii ''text/plain'') (Some (ascii ''md'')) = MarkdownView"
    and m2: "spec_select (ascii ''text/plain'') None = RawMimeLabel"
    and m3: "spec_select (ascii ''image/png'') None = ImageView"
    by (simp_all add: spec_select_def top_level_type_def ascii_def)
  have e3: "file_ext_of (ascii ''photo.png'') = Some (ascii ''png'')"
    by (simp add: file_ext_of_def basename_def ascii_def)
  have m3': "spec_select (ascii ''image/png'') (Some (ascii ''png'')) = ImageView"
    by (simp add: spec_select_def top_level_type_def ascii_def)
  have b1: "ascii ''text/plain'' = ascii ''text/plain'' \<and> file_ext_of (ascii ''notes.md'') = None
               \<longrightarrow> (\<exists>bytes sniffed. open_rb example_env (ascii ''notes.md'') = Inr bytes
                      \<and> magic_from_buffer example_env (take 2048 bytes) = Inr sniffed)"
    by (simp add: e1)
  have b3: "ascii ''image/png'' = ascii ''text/plain'' \<and> file_ext_of (ascii ''photo.png'') = None
               \<longrightarrow> (\<exists>bytes sniffed. open_rb example_env (ascii ''photo.png'') = Inr bytes
                      \<and> magic_from_buffer example_env (take 2048 bytes) = Inr sniffed)"
    by (simp add: e3)
  show ?thesis
    using render_mode_follows_decision_table [OF s1 b1, of initial_pane]
      render_mode_follows_decision_table [OF s2, of initial_pane] b2
      render_mode_follows_decision_table [OF s3 b3, of initial_pane]
    by (simp only: e1 e2 e3 m1 m2 m3' render.simps simp_thms)
qed

text \<open>
  C2 (the code departs from the claim). The path sniff is called outside every
  \<^verbatim>\<open>try\<close>: for a path that no longer exists the exception it raises leaves the
  handler, and the pane is not put into the error state.
\<close>

theorem missing_file_exception_leaves_handler:
  "on_directory_tree_file_selected example_env initial_pane (ascii ''gone.txt'') =
     Inl (LibraryError ''FileNotFoundError'')"
  by (simp add: on_directory_tree_file_selected_def lift_lib_def example_env_def
        example_sniff_def sniff_table_def ascii_def)

text \<open>
  C6. For a path sniffed as \<^verbatim>\<open>text/plain\<close> whose base name has no extension, the
  handler opens the file and sniffs its first 2048 bytes: an exception of that sniff
  leaves the handler. Whatever string the sniff returns, the pane shows the MIME
  string \<^verbatim>\<open>text/plain\<close> under the generic subtitle, so two runs that differ only in
  the sniffer of buffers end in the same pane.
\<close>

theorem buffer_sniff_performed_and_inert:
  assumes sniff: "magic_from_file ev path = Inr (ascii ''text/plain'')"
    and ext: "file_ext_of path = None"
    and opened: "open_rb ev path = Inr bytes"
  shows "(\<forall>name. magic_from_buffer ev (take 2048 bytes) = Inl name \<longrightarrow>
            on_directory_tree_file_selected ev st path = Inl (LibraryError name))
       \<and> (\<forall>sniffed. magic_from_buffer ev (take 2048 bytes) = Inr sniffed \<longrightarrow>
            on_directory_tree_file_selected ev st path =
              Inr (st\<lparr>content := StrR (ascii ''text/plain''),
                      sub_title := ReactiveObj (ascii ''Mime Type'')\<rparr>))
       \<and> (\<forall>other sniffed sniffed'.
            magic_from_buffer ev (take 2048 bytes) = Inr sniffed
            \<and> other (take 2048 bytes) = Inr sniffed' \<longrightarrow>
            on_directory_tree_file_selected (ev\<lparr>magic_from_buffer := other\<rparr>) st path =
              on_directory_tree_file_selected ev st path)"
proof -
  have run: "on_directory_tree_file_selected ev' st path =
               (case lift_lib (magic_from_buffer ev' (take 2048 bytes)) of
                  Inl e \<Rightarrow> Inl e
                | Inr sniffed \<Rightarrow> Inr (raw_mime_label (ascii ''text/plain'') st))"
    if "magic_from_file ev' = magic_from_file ev" "open_rb ev' = open_rb ev" for ev'
    using that sniff ext opened
    by (simp add: selected_text_plain on_text_plain_by_ext lift_lib_def)
  have here: "on_directory_tree_file_selected ev st path =
               (case lift_lib (magic_from_buffer ev (take 2048 bytes)) of
                  Inl e \<Rightarrow> Inl e
                | Inr sniffed \<Rightarrow> Inr (raw_mime_label (ascii ''text/plain'') st))"
    by (rule run) simp_all
  have there: "on_directory_tree_file_selected (ev\<lparr>magic_from_buffer := other\<rparr>) st path =
               (case lift_lib (other (take 2048 bytes)) of
                  Inl e \<Rightarrow> Inl e
                | Inr sniffed \<Rightarrow> Inr (raw_mime_label (ascii ''text/plain'') st))" for other
    using run [of "ev\<lparr>magic_from_buffer := other\<rparr>"] by simp
  show ?thesis
    by (simp add: here there lift_lib_def raw_mime_label_def)
qed

theorem buffer_sniff_performed_and_inert_witness:
  "on_directory_tree_file_selected example_env initial_pane (ascii ''README'') =
     Inr (initial_pane\<lparr>content := StrR (ascii ''text/plain''),
                       sub_title := ReactiveObj (ascii ''Mime Type'')\<rparr>)
   \<and> on_directory_tree_file_selected
       (example_env\<lparr>magic_from_buffer := (\<lambda>buffer. Inr (ascii ''image/png''))\<rparr>)
       initial_pane (ascii ''README'') =
     on_directory_tree_file_selected example_env initial_pane (ascii ''README'')"
proof -
  have s: "magic_from_file example_env (ascii ''README'') = Inr (ascii ''text/plain'')"
    by (simp add: example_env_def example_sniff_def sniff_table_def ascii_def)
  have e: "file_ext_of (ascii ''README'') = None"
    by (simp add: file_ext_of_def basename_def ascii_def)
  have opn: "open_rb example_env (ascii ''README'') = Inr (replicate 3000 35)"
    by (simp add: example_env_def)
  have b: "magic_from_buffer example_env (take 2048 (replicate 3000 35)) =
             Inr (ascii ''text/x-shellscript'')"
    by (simp add: example_env_def)
  show ?thesis
    using buffer_sniff_performed_and_inert [OF s e opn, of initial_pane] b
    by simp
qed

lemma basename_after_directory:
  assumes dir: "dir = [] \<or> last dir = of_char CHR ''/''"
    and name: "of_char CHR ''/'' \<notin> set name"
  shows "basename (dir @ name) = name"
proof -
  let ?keep = "\<lambda>c::nat. c \<noteq> of_char CHR ''/''"
  have "takeWhile ?keep (rev dir) = []"
  proof (cases "dir = []")
    case True
    then show ?thesis by simp
  next
    case False
    with dir have "last dir = of_char CHR ''/''" by simp
    with False have "hd (rev dir) = of_char CHR ''/''" by (simp only: hd_rev)
    with False show ?thesis by (cases "rev dir") simp_all
  qed
  moreover have "takeWhile ?keep (rev name @ rev dir) = rev name @ takeWhile ?keep (rev dir)"
    by (rule takeWhile_append2) (use name in auto)
  ultimately have "takeWhile ?keep (rev name @ rev dir) = rev name"
    by (simp only: append_Nil2)
  then show ?thesis by (simp add: basename_def del: of_char_Char)
qed

lemma first_segment_after_first_dot:
  fixes stem ext tail :: ustr
  assumes stem: "of_char CHR ''.'' \<notin> set stem"
    and ext: "of_char CHR ''.'' \<notin> set ext"
    and tail: "tail = [] \<or> hd tail = of_char CHR ''.''"
  shows "takeWhile (\<lambda>c. c \<noteq> of_char CHR ''.'')
           (tl (dropWhile (\<lambda>c. c \<noteq> of_char CHR ''.'') (stem @ of_char CHR ''.'' # ext @ tail))) = ext"
proof -
  let ?keep = "\<lambda>c::nat. c \<noteq> of_char CHR ''.''"
  have "dropWhile ?keep (stem @ of_char CHR ''.'' # ext @ tail) =
          dropWhile ?keep (of_char CHR ''.'' # ext @ tail)"
    by (rule dropWhile_append2) (use stem in auto)
  also have "\<dots> = of_char CHR ''.'' # ext @ tail" by (simp del: of_char_Char)
  finally have dropped: "tl (dropWhile ?keep (stem @ of_char CHR ''.'' # ext @ tail)) = ext @ tail"
    by (simp del: of_char_Char)
  have "takeWhile ?keep tail = []"
    using tail by (cases tail) (simp_all del: of_char_Char)
  moreover have "takeWhile ?keep (ext @ tail) = ext @ takeWhile ?keep tail"
    by (rule takeWhile_append2) (use ext in auto)
  ultimately have "takeWhile ?keep (ext @ tail) = ext"
    by (simp only: append_Nil2)
  then show ?thesis by (simp only: dropped)
qed

text \<open>
  C7. For a path sniffed as \<^verbatim>\<open>text/plain\<close>, only the text after the last slash
  counts, and the extension the handler dispatches on is the text between the first
  dot of that name and its second dot (or its end): whatever precedes the first dot
  and whatever follows the second, the file is shown in the markdown view when that
  text is \<^verbatim>\<open>md\<close> and in the code view otherwise. So \<^verbatim>\<open>archive.tar.gz\<close> goes by
  \<^verbatim>\<open>tar\<close> to the code view and \<^verbatim>\<open>notes.md.txt\<close> by \<^verbatim>\<open>md\<close> to the markdown
  view. A name without a dot has no extension, dots in its directories notwithstanding,
  and takes the branch that sniffs the buffer and shows the MIME string.
\<close>

theorem extension_is_first_segment_after_first_dot:
  assumes sniff: "magic_from_file ev (dir @ name) = Inr (ascii ''text/plain'')"
    and dir: "dir = [] \<or> last dir = of_char CHR ''/''"
    and name: "of_char CHR ''/'' \<notin> set name"
  shows "(\<forall>stem ext tail.
            name = stem @ of_char CHR ''.'' # ext @ tail
            \<and> of_char CHR ''.'' \<notin> set stem \<and> of_char CHR ''.'' \<notin> set ext
            \<and> (tail = [] \<or> hd tail = of_char CHR ''.'') \<longrightarrow>
            file_ext_of (dir @ name) = Some ext
            \<and> on_directory_tree_file_selected ev st (dir @ name) =
                Inr (if ext = ascii ''md'' then on_markdown_view ev st (dir @ name)
                     else on_code_view ev st (dir @ name)))
       \<and> (of_char CHR ''.'' \<notin> set name \<longrightarrow>
            file_ext_of (dir @ name) = None
            \<and> on_directory_tree_file_selected ev st (dir @ name) =
                (case lift_lib (open_rb ev (dir @ name)) of
                   Inl e \<Rightarrow> Inl e
                 | Inr bytes \<Rightarrow>
                     (case lift_lib (magic_from_buffer ev (take 2048 bytes)) of
                        Inl e \<Rightarrow> Inl e
                      | Inr sniffed \<Rightarrow>
                          Inr (st\<lparr>content := StrR (ascii ''text/plain''),
                                  sub_title := ReactiveObj (ascii ''Mime Type'')\<rparr>))))"
proof -
  have base: "basename (dir @ name) = name"
    using dir name by (rule basename_after_directory)
  have run: "on_directory_tree_file_selected ev st (dir @ name) =
               on_text_plain ev st (ascii ''text/plain'') (dir @ name)"
    using sniff by (rule selected_text_plain)
  have with_ext: "file_ext_of (dir @ name) = Some ext
      \<and> on_directory_tree_file_selected ev st (dir @ name) =
          Inr (if ext = ascii ''md'' then on_markdown_view ev st (dir @ name)
               else on_code_view ev st (dir @ name))"
    if parts: "name = stem @ of_char CHR ''.'' # ext @ tail"
      and stem: "of_char CHR ''.'' \<notin> set stem" and ext: "of_char CHR ''.'' \<notin> set ext"
      and tail: "tail = [] \<or> hd tail = of_char CHR ''.''"
    for stem ext tail
  proof -
    have "of_char CHR ''.'' \<in> set name" by (simp add: parts del: of_char_Char)
    then have "file_ext_of (dir @ name) =
        Some (takeWhile (\<lambda>c. c \<noteq> of_char CHR ''.'')
               (tl (dropWhile (\<lambda>c. c \<noteq> of_char CHR ''.'') name)))"
      by (simp add: file_ext_of_eq base del: of_char_Char)
    then have e: "file_ext_of (dir @ name) = Some ext"
      unfolding parts by (simp only: first_segment_after_first_dot [OF stem ext tail])
    show ?thesis
      by (simp add: e run on_text_plain_by_ext on_t_plain_ext_def)
  qed
  have without: "file_ext_of (dir @ name) = None
      \<and> on_directory_tree_file_selected ev st (dir @ name) =
          (case lift_lib (open_rb ev (dir @ name)) of
             Inl e \<Rightarrow> Inl e
           | Inr bytes \<Rightarrow>
               (case lift_lib (magic_from_buffer ev (take 2048 bytes)) of
                  Inl e \<Rightarrow> Inl e
                | Inr sniffed \<Rightarrow>
                    Inr (st\<lparr>content := StrR (ascii ''text/plain''),
                            sub_title := ReactiveObj (ascii ''Mime Type'')\<rparr>)))"
    if "of_char CHR ''.'' \<notin> set name"
  proof -
    from that have e: "file_ext_of (dir @ name) = None"
      by (simp add: file_ext_of_eq base del: of_char_Char)
    show ?thesis
      by (simp add: e run on_text_plain_by_ext raw_mime_label_def split: sum.splits)
  qed
  show ?thesis using with_ext without by blast
qed

theorem extension_is_first_segment_after_first_dot_witness:
  "on_directory_tree_file_selected example_env initial_pane (ascii ''archive.tar.gz'') =
     Inr (on_code_view example_env initial_pane (ascii ''archive.tar.gz''))
   \<and> on_directory_tree_file_selected example_env initial_pane
       (ascii ''/home/u/proj.d/archive.tar.gz'') =
     Inr (on_code_view example_env initial_pane (ascii ''/home/u/proj.d/archive.tar.gz''))
   \<and> on_directory_tree_file_selected example_env initial_pane (ascii ''docs.v2/notes.md.txt'') =
     Inr (on_markdown_view example_env initial_pane (ascii ''docs.v2/notes.md.txt''))
   \<and> file_ext_of (ascii ''dir.d/README'') = None
   \<and> on_directory_tree_file_selected example_env initial_pane (ascii ''dir.d/README'') =
     Inr (initial_pane\<lparr>content := StrR (ascii ''text/plain''),
                       sub_title := ReactiveObj (ascii ''Mime Type'')\<rparr>)"
proof -
  have sniffed:
    "magic_from_file example_env ([] @ ascii ''archive.tar.gz'') = Inr (ascii ''text/plain'')"
    "magic_from_file example_env (ascii ''/home/u/proj.d/'' @ ascii ''archive.tar.gz'') =
       Inr (ascii ''text/plain'')"
    "magic_from_file example_env (ascii ''docs.v2/'' @ ascii ''notes.md.txt'') =
       Inr (ascii ''text/plain'')"
    "magic_from_file example_env (ascii ''dir.d/'' @ ascii ''README'') = Inr (ascii ''text/plain'')"
    by (simp_all add: example_env_def example_sniff_def sniff_table_def ascii_def)
  have dirs: "[] = [] \<or> last ([]::ustr) = of_char CHR ''/''"
    "ascii ''/home/u/proj.d/'' = [] \<or> last (ascii ''/home/u/proj.d/'') = of_char CHR ''/''"
    "ascii ''docs.v2/'' = [] \<or> last (ascii ''docs.v2/'') = of_char CHR ''/''"
    "ascii ''dir.d/'' = [] \<or> last (ascii ''dir.d/'') = of_char CHR ''/''"
    by (simp_all add: ascii_def)
  have names: "of_char CHR ''/'' \<notin> set (ascii ''archive.tar.gz'')"
    "of_char CHR ''/'' \<notin> set (ascii ''notes.md.txt'')"
    "of_char CHR ''/'' \<notin> set (ascii ''README'')"
    by (simp_all add: ascii_def)
  have tar: "ascii ''archive.tar.gz'' =
               ascii ''archive'' @ of_char CHR ''.'' # ascii ''tar'' @ ascii ''.gz''
             \<and> of_char CHR ''.'' \<notin> set (ascii ''archive'')
             \<and> of_char CHR ''.'' \<notin> set (ascii ''tar'')
             \<and> (ascii ''.gz'' = [] \<or> hd (ascii ''.gz'') = of_char CHR ''.'')"
    by (simp add: ascii_def)
  have md: "ascii ''notes.md.txt'' =
               ascii ''notes'' @ of_char CHR ''.'' # ascii ''md'' @ ascii ''.txt''
             \<and> of_char CHR ''.'' \<notin> set (ascii ''notes'')
             \<and> of_char CHR ''.'' \<notin> set (ascii ''md'')
             \<and> (ascii ''.txt'' = [] \<or> hd (ascii ''.txt'') = of_char CHR ''.'')"
    by (simp add: ascii_def)
  have nodot: "of_char CHR ''.'' \<notin> set (ascii ''README'')"
    by (simp add: ascii_def)
  have differ: "ascii ''tar'' \<noteq> ascii ''md''"
    by (simp add: ascii_def)
  have buffer: "lift_lib (open_rb example_env (ascii ''dir.d/'' @ ascii ''README'')) =
                  Inr (replicate 3000 35)"
    "\<And>buf. lift_lib (magic_from_buffer example_env buf) = Inr (ascii ''text/x-shellscript'')"
    by (simp_all add: example_env_def lift_lib_def)
  have joined: "[] @ ascii ''archive.tar.gz'' = ascii ''archive.tar.gz''"
    "ascii ''/home/u/proj.d/'' @ ascii ''archive.tar.gz'' = ascii ''/home/u/proj.d/archive.tar.gz''"
    "ascii ''docs.v2/'' @ ascii ''notes.md.txt'' = ascii ''docs.v2/notes.md.txt''"
    "ascii ''dir.d/'' @ ascii ''README'' = ascii ''dir.d/README''"
    by (simp_all add: ascii_def)
  have a: "on_directory_tree_file_selected example_env initial_pane
             ([] @ ascii ''archive.tar.gz'') =
           Inr (on_code_view example_env initial_pane ([] @ ascii ''archive.tar.gz''))"
    using extension_is_first_segment_after_first_dot
            [OF sniffed(1) dirs(1) names(1), of initial_pane, THEN conjunct1, rule_format,
             where stem = "ascii ''archive''" and ext = "ascii ''tar''" and tail = "ascii ''.gz''",
             OF tar] differ
    by simp
  have b: "on_directory_tree_file_selected example_env initial_pane
             (ascii ''/home/u/proj.d/'' @ ascii ''archive.tar.gz'') =
           Inr (on_code_view example_env initial_pane
                 (ascii ''/home/u/proj.d/'' @ ascii ''archive.tar.gz''))"
    using extension_is_first_segment_after_first_dot
            [OF sniffed(2) dirs(2) names(1), of initial_pane, THEN conjunct1, rule_format,
             where stem = "ascii ''archive''" and ext = "ascii ''tar''" and tail = "ascii ''.gz''",
             OF tar] differ
    by simp
  have c: "on_directory_tree_file_selected example_env initial_pane
             (ascii ''docs.v2/'' @ ascii ''notes.md.txt'') =
           Inr (on_markdown_view example_env initial_pane
                 (ascii ''docs.v2/'' @ ascii ''notes.md.txt''))"
    using extension_is_first_segment_after_first_dot
            [OF sniffed(3) dirs(3) names(2), of initial_pane, THEN conjunct1, rule_format,
             where stem = "ascii ''notes''" and ext = "ascii ''md''" and tail = "ascii ''.txt''",
             OF md]
    by simp
  have d: "file_ext_of (ascii ''dir.d/'' @ ascii ''README'') = None
           \<and> on_directory_tree_file_selected example_env initial_pane
               (ascii ''dir.d/'' @ ascii ''README'') =
             Inr (initial_pane\<lparr>content := StrR (ascii ''text/plain''),
                               sub_title := ReactiveObj (ascii ''Mime Type'')\<rparr>)"
    using extension_is_first_segment_after_first_dot
            [OF sniffed(4) dirs(4) names(3), of initial_pane, THEN conjunct2, rule_format,
             OF nodot]
    by (simp add: buffer)
  show ?thesis
    using a b c d by (simp only: joined simp_thms)
qed

text \<open>
  C10. A base name that begins with a dot and has no other dot has more than one
  piece, so the text after the dot is its extension: sniffed as \<^verbatim>\<open>text/plain\<close>,
  such a file is shown in the markdown view when that text is \<^verbatim>\<open>md\<close> and in the
  code view otherwise, and neither the file's bytes nor the sniffer of buffers has
  any part in the result.
\<close>

theorem dotfile_has_extension:
  assumes name: "basename path = of_char CHR ''.'' # rest"
    and nodot: "of_char CHR ''.'' \<notin> set rest"
    and sniff: "magic_from_file ev path = Inr (ascii ''text/plain'')"
  shows "file_ext_of path = Some rest
       \<and> on_directory_tree_file_selected ev st path =
           Inr (if rest = ascii ''md'' then on_markdown_view ev st path
                else on_code_view ev st path)
       \<and> on_directory_tree_file_selected
           (ev\<lparr>open_rb := other_open, magic_from_buffer := other_sniff\<rparr>) st path =
           on_directory_tree_file_selected ev st path"
proof -
  have "takeWhile (\<lambda>c. c \<noteq> of_char CHR ''.'') rest = rest"
    using nodot by (simp add: takeWhile_eq_all_conv del: of_char_Char) metis
  then have ext: "file_ext_of path = Some rest"
    by (simp add: file_ext_of_eq name del: of_char_Char)
  have run: "on_directory_tree_file_selected ev' st path =
               Inr (on_t_plain_ext ev' st rest path)"
    if "magic_from_file ev' = magic_from_file ev" for ev'
    using that sniff by (simp add: selected_text_plain on_text_plain_by_ext ext)
  have same: "on_t_plain_ext (ev\<lparr>open_rb := other_open, magic_from_buffer := other_sniff\<rparr>)
                st rest path = on_t_plain_ext ev st rest path"
    by (simp add: on_t_plain_ext_def on_markdown_view_def on_code_view_def)
  show ?thesis
    using run [of ev] run [of "ev\<lparr>open_rb := other_open, magic_from_buffer := other_sniff\<rparr>"]
    by (simp add: ext same) (simp add: on_t_plain_ext_def)
qed

theorem dotfile_has_extension_witness:
  "file_ext_of (ascii ''.bashrc'') = Some (ascii ''bashrc'')
   \<and> on_directory_tree_file_selected example_env initial_pane (ascii ''.bashrc'') =
       Inr (on_code_view example_env initial_pane (ascii ''.bashrc''))
   \<and> on_directory_tree_file_selected
       (example_env\<lparr>open_rb := (\<lambda>p. Inl ''PermissionError''),
                    magic_from_buffer := (\<lambda>b. Inl ''MagicException'')\<rparr>)
       initial_pane (ascii ''.bashrc'') =
       on_directory_tree_file_selected example_env initial_pane (ascii ''.bashrc'')"
proof -
  have name: "basename (ascii ''.bashrc'') = of_char CHR ''.'' # ascii ''bashrc''"
    by (simp add: basename_def ascii_def)
  have nodot: "of_char CHR ''.'' \<notin> set (ascii ''bashrc'')"
    by (simp add: ascii_def)
  have sniff: "magic_from_file example_env (ascii ''.bashrc'') = Inr (ascii ''text/plain'')"
    by (simp add: example_env_def example_sniff_def sniff_table_def ascii_def)
  have differ: "ascii ''bashrc'' \<noteq> ascii ''md''"
    by (simp add: ascii_def)
  show ?thesis
    using dotfile_has_extension [OF name nodot sniff, where st = initial_pane
        and other_open = "\<lambda>p. Inl ''PermissionError''"
        and other_sniff = "\<lambda>b. Inl ''MagicException''"] differ
    by simp
qed

section \<open>Subtitle, scroll position and style classes\<close>

lemma on_code_view_result:
  "(\<exists>e. on_code_view ev st path = on_exception e st)
   \<or> (\<exists>code. syntax_from_path ev path = Inr code
         \<and> content (on_code_view ev st path) = SyntaxR code
         \<and> sub_title (on_code_view ev st path) = SubStr path
         \<and> scroll_offset (on_code_view ev st path) = (0, 0)
         \<and> \<not> scroll_animating (on_code_view ev st path)
         \<and> ''image'' \<notin> preview_classes (on_code_view ev st path)
         \<and> ''image-view'' \<notin> viewbox_classes (on_code_view ev st path))"
  by (cases "syntax_from_path ev path")
     (auto simp: on_code_view_def lift_lib_def scroll_home_def)

lemma on_markdown_view_result:
  "(\<exists>e. on_markdown_view ev st path = on_exception e st)
   \<or> (\<exists>text. read_text ev path = Inr text
         \<and> content (on_markdown_view ev st path) = MarkdownR (checkbox_markup text)
         \<and> sub_title (on_markdown_view ev st path) = SubStr path
         \<and> scroll_offset (on_markdown_view ev st path) = (0, 0)
         \<and> \<not> scroll_animating (on_markdown_view ev st path)
         \<and> ''image'' \<notin> preview_classes (on_markdown_view ev st path)
         \<and> ''image-view'' \<notin> viewbox_classes (on_markdown_view ev st path))"
  by (cases "read_text ev path")
     (auto simp: on_markdown_view_def lift_lib_def scroll_home_def)

lemma on_image_view_result:
  "(\<exists>e. on_image_view ev st path = on_exception e st)
   \<or> (\<exists>img image_view. image_open ev path = Inr img
         \<and> img_to_string (image_resize ev) img 80 True = Inr image_view
         \<and> content (on_image_view ev st path) = StrR image_view
         \<and> sub_title (on_image_view ev st path) = SubStr path
         \<and> ''image'' \<in> preview_classes (on_image_view ev st path)
         \<and> ''image-view'' \<in> viewbox_classes (on_image_view ev st path))"
proof (cases "image_open ev path")
  case (Inl name)
  then show ?thesis by (auto simp: on_image_view_def lift_lib_def)
next
  case (Inr img)
  then show ?thesis
    by (cases "img_to_string (image_resize ev) img 80 True")
       (auto simp: on_image_view_def lift_lib_def)
qed

text \<open>
  C8. After a selection whose path sniff returned and whose handler ran to its end,
  the content of the pane tells the subtitle: under highlighted code and under
  rendered markdown the subtitle is the path and the scroll offset is at the top with
  no animation under way; under an image string (top-level type \<^verbatim>\<open>image\<close>) the
  subtitle is the path; under the MIME string the subtitle is the generic
  \<^verbatim>\<open>Mime Type\<close> object and not the path; under a traceback it is the error marker.
\<close>

theorem subtitle_and_scroll_after_transition:
  assumes sniff: "magic_from_file ev path = Inr mime"
    and run: "on_directory_tree_file_selected ev st path = Inr st'"
  shows "(case content st' of
            SyntaxR code \<Rightarrow>
              sub_title st' = SubStr path \<and> scroll_offset st' = (0, 0)
              \<and> \<not> scroll_animating st'
          | MarkdownR markup \<Rightarrow>
              sub_title st' = SubStr path \<and> scroll_offset st' = (0, 0)
              \<and> \<not> scroll_animating st'
          | StrR s \<Rightarrow>
              if top_level_type mime = ascii ''image'' then sub_title st' = SubStr path
              else s = mime \<and> sub_title st' = ReactiveObj (ascii ''Mime Type'')
          | TracebackR e \<Rightarrow> sub_title st' = ErrorWarning
          | Blank \<Rightarrow> False)"
proof -
  define P where "P = (\<lambda>image (r::pane). (case content r of
            SyntaxR code \<Rightarrow>
              sub_title r = SubStr path \<and> scroll_offset r = (0, 0) \<and> \<not> scroll_animating r
          | MarkdownR markup \<Rightarrow>
              sub_title r = SubStr path \<and> scroll_offset r = (0, 0) \<and> \<not> scroll_animating r
          | StrR s \<Rightarrow>
              if image then sub_title r = SubStr path
              else s = mime \<and> sub_title r = ReactiveObj (ascii ''Mime Type'')
          | TracebackR e \<Rightarrow> sub_title r = ErrorWarning
          | Blank \<Rightarrow> False))"
  have code: "P b (on_code_view ev st path)" for b
    using on_code_view_result [of ev st path] by (auto simp: P_def on_exception_def)
  have markdown: "P b (on_markdown_view ev st path)" for b
    using on_markdown_view_result [of ev st path] by (auto simp: P_def on_exception_def)
  have img: "P True (on_image_view ev st path)"
    using on_image_view_result [of ev st path] by (auto simp: P_def on_exception_def)
  have label: "P False (raw_mime_label mime st)"
    by (simp add: P_def raw_mime_label_def)
  have plain: "P False r" if r: "on_text_plain ev st (ascii ''text/plain'') path = Inr r"
    and m: "mime = ascii ''text/plain''" for r
  proof (cases "file_ext_of path")
    case (Some ext)
    with r have "r = (if ext = ascii ''md'' then on_markdown_view ev st path
                      else on_code_view ev st path)"
      by (simp add: on_text_plain_by_ext on_t_plain_ext_def)
    then show ?thesis
      using code [of False] markdown [of False] by (cases "ext = ascii ''md''") simp_all
  next
    case None
    with r have "r = raw_mime_label mime st"
      by (simp add: on_text_plain_by_ext m split: sum.splits)
    then show ?thesis using label by simp
  qed
  have "P (top_level_type mime = ascii ''image'') st'"
  proof (cases "mime = ascii ''text/plain''")
    case True
    with sniff run have "on_text_plain ev st (ascii ''text/plain'') path = Inr st'"
      by (simp add: selected_text_plain)
    from plain [OF this True] show ?thesis
      using True by (simp add: top_level_type_text_plain ascii_text_distinct)
  next
    case False
    consider (is_app) "top_level_type mime = ascii ''application''"
      | (is_text) "top_level_type mime \<noteq> ascii ''application''"
          "top_level_type mime = ascii ''text''"
      | (is_image) "top_level_type mime \<noteq> ascii ''application''"
          "top_level_type mime \<noteq> ascii ''text''" "top_level_type mime = ascii ''image''"
      | (is_other) "top_level_type mime \<noteq> ascii ''application''"
          "top_level_type mime \<noteq> ascii ''text''" "top_level_type mime \<noteq> ascii ''image''"
      by blast
    then show ?thesis
    proof cases
      case is_app
      with sniff run have "st' = on_code_view ev st path"
        by (simp add: on_directory_tree_file_selected_def lift_lib_def Let_def)
      then show ?thesis using code [of "top_level_type mime = ascii ''image''"] by simp
    next
      case is_text
      with sniff run False have "st' = on_code_view ev st path"
        by (simp add: on_directory_tree_file_selected_def lift_lib_def Let_def on_text_def)
      then show ?thesis using code [of "top_level_type mime = ascii ''image''"] by simp
    next
      case is_image
      with sniff run have "st' = on_image_view ev st path"
        by (simp add: on_directory_tree_file_selected_def lift_lib_def Let_def)
      then show ?thesis using img is_image(3) by simp
    next
      case is_other
      with sniff run have "st' = raw_mime_label mime st"
        by (simp add: on_directory_tree_file_selected_def lift_lib_def Let_def
              raw_mime_label_def)
      then show ?thesis using label is_other(3) by simp
    qed
  qed
then show ?thesis by (simp add: P_def)
qed

theorem subtitle_and_scroll_after_transition_witness:
  "content (on_code_view example_env initial_pane (ascii ''tool.bin'')) = SyntaxR (ascii ''x = 1'')
   \<and> sub_title (on_code_view example_env initial_pane (ascii ''tool.bin'')) =
       SubStr (ascii ''tool.bin'')
   \<and> scroll_offset (on_code_view example_env initial_pane (ascii ''tool.bin'')) = (0, 0)
   \<and> \<not> scroll_animating (on_code_view example_env initial_pane (ascii ''tool.bin''))"
proof -
  have s: "magic_from_file example_env (ascii ''tool.bin'') =
             Inr (ascii ''application/octet-stream'')"
    by (simp add: example_env_def example_sniff_def sniff_table_def ascii_def)
  have r: "on_directory_tree_file_selected example_env initial_pane (ascii ''tool.bin'') =
             Inr (on_code_view example_env initial_pane (ascii ''tool.bin''))"
    using s by (simp add: on_directory_tree_file_selected_def lift_lib_def Let_def
          top_level_type_def ascii_def)
  have c: "content (on_code_view example_env initial_pane (ascii ''tool.bin'')) =
             SyntaxR (ascii ''x = 1'')"
    by (simp add: on_code_view_def lift_lib_def example_env_def scroll_home_def)
  show ?thesis
    using subtitle_and_scroll_after_transition [OF s r] by (simp add: c)
qed

section \<open>The rasterizer\<close>

lemma py_range_member:
  "x \<in> set (py_range start stop step) \<Longrightarrow>
     start \<le> x \<and> x < stop \<and> (x - start) mod step = 0"
proof (induction start stop step rule: py_range.induct)
  case (1 start stop step)
  show ?case
  proof (cases "step \<le> 0 \<or> stop \<le> start")
    case True
    with "1.prems" show ?thesis by (simp add: py_range.simps)
  next
    case False
    with "1.prems" have "x = start \<or> x \<in> set (py_range (start + step) stop step)"
      by (subst (asm) py_range.simps) simp
    then show ?thesis
    proof
      assume "x = start"
      with False show ?thesis by simp
    next
      assume "x \<in> set (py_range (start + step) stop step)"
      with "1.IH" False have "start + step \<le> x \<and> x < stop \<and> (x - (start + step)) mod step = 0"
        by simp
      moreover have "(x - start) mod step = (x - (start + step)) mod step"
        by (metis diff_diff_eq mod_diff_right_eq mod_self diff_zero)
      ultimately show ?thesis using False by simp
    qed
  qed
qed

lemma length_py_range:
  "0 < step \<Longrightarrow> length (py_range start stop step) = nat ((stop - start + step - 1) div step)"
proof (induction start stop step rule: py_range.induct)
  case (1 start stop step)
  show ?case
  proof (cases "stop \<le> start")
    case True
    have "(stop - start + step - 1) div step \<le> (step - 1) div step"
      using True "1.prems" by (intro zdiv_mono1) simp_all
    moreover have "(step - 1) div step = 0"
      using "1.prems" by (simp add: div_pos_pos_trivial)
    ultimately have "(stop - start + step - 1) div step \<le> 0" by simp
    with True show ?thesis by (simp add: py_range.simps)
  next
    case False
    with "1.prems" "1.IH"
    have "length (py_range (start + step) stop step) =
            nat ((stop - (start + step) + step - 1) div step)"
      by simp
    moreover have "(stop - start + step - 1) div step = (stop - start - 1) div step + 1"
      using "1.prems" by (metis add.commute add_diff_eq div_add_self1 less_int_code(1) not_less_iff_gr_or_eq)
    moreover have "0 \<le> (stop - start - 1) div step"
      using False "1.prems" by (simp add: pos_imp_zdiv_nonneg_iff)
    ultimately show ?thesis
      using False "1.prems" by (subst py_range.simps) (simp add: nat_add_distrib)
  qed
qed

lemma unpack3_not_IndexError: "unpack3 p \<noteq> Inl IndexError"
  by (induction p rule: unpack3.induct) simp_all

lemma unpack3_rgb: "unpack3 (Bands [r, g, b]) = Inr (r, g, b)"
  by simp

lemma getpixel_inside:
  "0 \<le> x \<Longrightarrow> x < int (bm_width img) \<Longrightarrow> 0 \<le> y \<Longrightarrow> y < int (bm_height img) \<Longrightarrow>
     getpixel img (x, y) = Inr (bm_data img (nat x) (nat y))"
  by (simp add: getpixel_def)

lemma cell_at_not_IndexError:
  assumes "0 \<le> x" "x < int (bm_width img)" "0 \<le> y" "y + 1 < int (bm_height img)"
  shows "cell_at img unicode y x \<noteq> Inl IndexError"
  using assms unpack3_not_IndexError
  by (auto simp: cell_at_def getpixel_inside split: sum.splits)

lemma cell_at_is_cell: "cell_at img unicode y x = Inr c \<Longrightarrow> is_cell unicode c"
  by (fastforce simp: cell_at_def is_cell_def split: if_splits sum.splits)

lemma rgb_bitmap_unpack3:
  assumes "rgb_bitmap img" "0 \<le> x" "x < int (bm_width img)" "0 \<le> y" "y < int (bm_height img)"
  shows "\<exists>px. unpack3 (bm_data img (nat x) (nat y)) = Inr px"
proof -
  from assms have "nat x < bm_width img" "nat y < bm_height img" by simp_all
  with assms(1) obtain r g b where "bm_data img (nat x) (nat y) = Bands [r, g, b]"
    unfolding rgb_bitmap_def by blast
  then show ?thesis by simp
qed

lemma cell_at_rgb:
  assumes rgb: "rgb_bitmap img"
    and "0 \<le> x" "x < int (bm_width img)" "0 \<le> y" "y + 1 < int (bm_height img)"
  shows "\<exists>c. cell_at img unicode y x = Inr c"
proof -
  from assms obtain p1 where p1: "unpack3 (bm_data img (nat x) (nat y)) = Inr p1"
    using rgb_bitmap_unpack3 [of img x y] by auto
  from assms obtain p2 where p2: "unpack3 (bm_data img (nat x) (nat (y + 1))) = Inr p2"
    using rgb_bitmap_unpack3 [of img x "y + 1"] by auto
  show ?thesis
    using assms p1 p2 by (simp add: cell_at_def getpixel_inside)
qed

lemma columns_loop_cells:
  "columns_loop img unicode y xs out = Inr out' \<Longrightarrow>
     \<exists>cells. out' = out @ concat cells \<and> length cells = length xs
       \<and> (\<forall>c \<in> set cells. is_cell unicode c)"
proof (induction xs arbitrary: out)
  case Nil
  then show ?case by simp
next
  case (Cons x xs)
  from Cons.prems obtain cell where
    cell: "cell_at img unicode y x = Inr cell"
    and rest: "columns_loop img unicode y xs (out @ cell) = Inr out'"
    by (auto split: sum.splits)
  from Cons.IH [OF rest] obtain cells where
    cells: "out' = (out @ cell) @ concat cells" "length cells = length xs"
      "\<forall>c \<in> set cells. is_cell unicode c"
    by blast
  have "out' = out @ concat (cell # cells)" using cells(1) by simp
  moreover have "length (cell # cells) = length (x # xs)" using cells(2) by simp
  moreover have "\<forall>c \<in> set (cell # cells). is_cell unicode c"
    using cells(3) cell_at_is_cell [OF cell] by simp
  ultimately show ?case by blast
qed

lemma columns_loop_returns:
  "(\<forall>x \<in> set xs. \<exists>c. cell_at img unicode y x = Inr c) \<Longrightarrow>
     \<exists>out'. columns_loop img unicode y xs out = Inr out'"
proof (induction xs arbitrary: out)
  case Nil
  show ?case by simp
next
  case (Cons x xs)
  then obtain c where "cell_at img unicode y x = Inr c" by auto
  with Cons show ?case by simp
qed

lemma columns_loop_not_IndexError:
  "(\<forall>x \<in> set xs. cell_at img unicode y x \<noteq> Inl IndexError) \<Longrightarrow>
     columns_loop img unicode y xs out \<noteq> Inl IndexError"
  by (induction xs arbitrary: out) (auto split: sum.splits)

lemma rows_loop_rows:
  "rows_loop img unicode xs ys out = Inr out' \<Longrightarrow>
     \<exists>rows. out' = out @ concat (map (\<lambda>row. concat row @ [newline]) rows)
       \<and> length rows = length ys
       \<and> (\<forall>row \<in> set rows. length row = length xs \<and> (\<forall>c \<in> set row. is_cell unicode c))"
proof (induction ys arbitrary: out)
  case Nil
  then show ?case by simp
next
  case (Cons y ys)
  from Cons.prems obtain mid where
    mid: "columns_loop img unicode y xs out = Inr mid"
    and rest: "rows_loop img unicode xs ys (mid @ [newline]) = Inr out'"
    by (auto split: sum.splits)
  from columns_loop_cells [OF mid] obtain cells where
    cells: "mid = out @ concat cells" "length cells = length xs"
      "\<forall>c \<in> set cells. is_cell unicode c"
    by blast
  from Cons.IH [OF rest] obtain rows where
    rows: "out' = (mid @ [newline]) @ concat (map (\<lambda>row. concat row @ [newline]) rows)"
      "length rows = length ys"
      "\<forall>row \<in> set rows. length row = length xs \<and> (\<forall>c \<in> set row. is_cell unicode c)"
    by blast
  have "out' = out @ concat (map (\<lambda>row. concat row @ [newline]) (cells # rows))"
    using rows(1) cells(1) by simp
  moreover have "length (cells # rows) = length (y # ys)" using rows(2) by simp
  moreover have "\<forall>row \<in> set (cells # rows).
      length row = length xs \<and> (\<forall>c \<in> set row. is_cell unicode c)"
    using rows(3) cells(2,3) by simp
  ultimately show ?case by blast
qed

lemma rows_loop_returns:
  "(\<forall>y \<in> set ys. \<forall>x \<in> set xs. \<exists>c. cell_at img unicode y x = Inr c) \<Longrightarrow>
     \<exists>out'. rows_loop img unicode xs ys out = Inr out'"
proof (induction ys arbitrary: out)
  case Nil
  show ?case by simp
next
  case (Cons y ys)
  then have "\<forall>x \<in> set xs. \<exists>c. cell_at img unicode y x = Inr c" by simp
  from columns_loop_returns [OF this] obtain mid where
    "columns_loop img unicode y xs out = Inr mid" by blast
  with Cons show ?case by simp
qed

lemma rows_loop_not_IndexError:
  "(\<forall>y \<in> set ys. \<forall>x \<in> set xs. cell_at img unicode y x \<noteq> Inl IndexError) \<Longrightarrow>
     rows_loop img unicode xs ys out \<noteq> Inl IndexError"
proof (induction ys arbitrary: out)
  case Nil
  show ?case by simp
next
  case (Cons y ys)
  then have "columns_loop img unicode y xs out \<noteq> Inl IndexError"
    by (simp add: columns_loop_not_IndexError)
  with Cons show ?case by (auto split: sum.splits)
qed

section \<open>Lines of the rendered string\<close>

lemma str_split_append_sep:
  "sep \<notin> set r \<Longrightarrow> str_split sep (r @ sep # rest) = r # str_split sep rest"
proof (induction r)
  case Nil
  show ?case by simp
next
  case (Cons a r)
  then show ?case by (auto simp: str_split_not_Nil split: list.splits)
qed

lemma str_split_terminated_rows:
  "(\<forall>row \<in> set rows. sep \<notin> set row) \<Longrightarrow>
     str_split sep (concat (map (\<lambda>row. row @ [sep]) rows)) = rows @ [[]]"
proof (induction rows)
  case Nil
  show ?case by simp
next
  case (Cons row rows)
  then show ?case by (simp add: str_split_append_sep)
qed

lemma lines_of_terminated_rows:
  "(\<forall>row \<in> set rows. newline \<notin> set row) \<Longrightarrow>
     lines_of (concat (map (\<lambda>row. row @ [newline]) rows)) = rows"
  by (simp add: lines_of_def str_split_terminated_rows)

lemma str_nat_digits: "set (str_nat n) \<subseteq> {48..57}"
proof (induction n rule: str_nat.induct)
  case (1 n)
  show ?case
  proof (cases "n < 10")
    case True
    then show ?thesis by (subst str_nat.simps) simp
  next
    case False
    have "n mod 10 < 10" by simp
    then have "48 + n mod 10 \<in> {48..57}" by simp
    with False "1.IH" show ?thesis by (subst str_nat.simps) simp
  qed
qed

lemma newline_notin_str_int: "newline \<notin> set (str_int i)"
proof -
  have "newline \<notin> set (str_nat n)" for n
    using str_nat_digits [of n] by (auto simp: newline_def)
  then show ?thesis by (simp add: str_int_def newline_def)
qed

lemma newline_notin_cell: "is_cell unicode c \<Longrightarrow> newline \<notin> set c"
proof -
  have fixed: "newline \<notin> set (ascii ''[rgb('')" "newline \<notin> set (ascii '','')"
    "newline \<notin> set (ascii '') on rgb('')" "newline \<notin> set (ascii '')]'')"
    "newline \<notin> set (ascii ''[/]'')" "newline \<notin> set (ascii ''[on rgb('')"
    "newline \<notin> set (ascii '')] [/]'')" "newline \<noteq> half_block"
    by (simp_all add: newline_def ascii_def half_block_def)
  assume "is_cell unicode c"
  then show ?thesis
    by (auto simp: is_cell_def cell_unicode_def cell_plain_def fixed newline_notin_str_int
          split: if_splits)
qed

lemma dest_height_of_even: "dest_height_of img dest_width = Inr H \<Longrightarrow> even H"
  by (auto simp: dest_height_of_def Let_def split: sum.splits if_splits)

text \<open>
  The rasterizer on a resized bitmap of the requested size: it returns when the
  pixels have three bands, and the string it returns is a sequence of rows, each the
  markup of \<open>dest_width\<close> cells followed by a line break, one row for every two rows
  of the resized bitmap.
\<close>

lemma img_to_string_grid:
  assumes height: "dest_height_of img dest_width = Inr H"
    and resized: "resize img (dest_width, H) = Inr img'"
    and width': "int (bm_width img') = dest_width"
    and height': "int (bm_height img') = H"
  shows "img_to_string resize img dest_width unicode \<noteq> Inl IndexError"
    and "rgb_bitmap img' \<Longrightarrow> \<exists>out. img_to_string resize img dest_width unicode = Inr out"
    and "img_to_string resize img dest_width unicode = Inr out \<Longrightarrow>
           length (lines_of out) = nat (H div 2)
           \<and> (\<forall>line \<in> set (lines_of out). \<exists>cells. line = concat cells
                 \<and> int (length cells) = dest_width \<and> (\<forall>c \<in> set cells. is_cell unicode c))"
proof -
  let ?xs = "py_range 0 dest_width 1" and ?ys = "py_range 0 H 2"
  have run: "img_to_string resize img dest_width unicode = rows_loop img' unicode ?xs ?ys []"
    using height resized by (simp add: img_to_string_def lift_lib_def)
  have even: "even H" using height by (rule dest_height_of_even)
  have H0: "0 \<le> H" using height' by linarith
  have W0: "0 \<le> dest_width" using width' by linarith
  have xs: "0 \<le> x \<and> x < int (bm_width img')" if "x \<in> set ?xs" for x
    using py_range_member [OF that] width' by simp
  have ys: "0 \<le> y \<and> y + 1 < int (bm_height img')" if "y \<in> set ?ys" for y
  proof -
    from py_range_member [OF that] have "0 \<le> y" "y < H" "y mod 2 = 0" by simp_all
    with even have "y + 1 < H" by presburger
    with \<open>0 \<le> y\<close> height' show ?thesis by simp
  qed
  have inside: "cell_at img' unicode y x \<noteq> Inl IndexError"
    if "y \<in> set ?ys" "x \<in> set ?xs" for x y
    using xs [OF that(2)] ys [OF that(1)] by (intro cell_at_not_IndexError) simp_all
  have cell: "\<exists>c. cell_at img' unicode y x = Inr c"
    if "rgb_bitmap img'" "y \<in> set ?ys" "x \<in> set ?xs" for x y
    using that(1) xs [OF that(3)] ys [OF that(2)] by (intro cell_at_rgb) simp_all
  show "img_to_string resize img dest_width unicode \<noteq> Inl IndexError"
    unfolding run using inside by (intro rows_loop_not_IndexError) blast
  show "\<exists>out. img_to_string resize img dest_width unicode = Inr out" if "rgb_bitmap img'"
    unfolding run using cell [OF that] by (intro rows_loop_returns) blast
  show "length (lines_of out) = nat (H div 2)
        \<and> (\<forall>line \<in> set (lines_of out). \<exists>cells. line = concat cells
              \<and> int (length cells) = dest_width \<and> (\<forall>c \<in> set cells. is_cell unicode c))"
    if "img_to_string resize img dest_width unicode = Inr out"
  proof -
    from that run have "rows_loop img' unicode ?xs ?ys [] = Inr out" by simp
    from rows_loop_rows [OF this] obtain rows where
      out: "out = concat (map (\<lambda>row. concat row @ [newline]) rows)"
      and len: "length rows = length ?ys"
      and cells: "\<forall>row \<in> set rows. length row = length ?xs \<and> (\<forall>c \<in> set row. is_cell unicode c)"
      by auto
    have "\<forall>line \<in> set (map concat rows). newline \<notin> set line"
      using cells newline_notin_cell by fastforce
    moreover have "out = concat (map (\<lambda>line. line @ [newline]) (map concat rows))"
      using out by (simp add: comp_def)
    ultimately have lines: "lines_of out = map concat rows"
      by (simp only: lines_of_terminated_rows)
    have "length ?ys = nat (H div 2)"
      using even H0 by (simp add: length_py_range)
    moreover have "int (length ?xs) = dest_width"
      using W0 by (simp add: length_py_range)
    ultimately show ?thesis
      using lines len cells by auto
  qed
qed

section \<open>The destination height\<close>

lemma bit_length_bounds:
  "0 < n \<Longrightarrow> 1 \<le> bit_length n \<and> 2 ^ nat (bit_length n - 1) \<le> n \<and> n < 2 ^ nat (bit_length n)"
proof (induction n rule: bit_length.induct)
  case (1 n)
  show ?case
  proof (cases "n = 1")
    case True
    have "bit_length 0 = 0" by (simp add: bit_length.simps)
    then have "bit_length 1 = 1" by (subst bit_length.simps) simp
    with True show ?thesis by simp
  next
    case False
    with "1.prems" have m: "0 < n div 2" by simp
    let ?m = "n div 2" and ?b = "bit_length (n div 2)"
    from "1.IH" m "1.prems" have IH: "1 \<le> ?b" "2 ^ nat (?b - 1) \<le> ?m" "?m < 2 ^ nat ?b"
      by simp_all
    have bl: "bit_length n = 1 + ?b"
      using "1.prems" by (subst bit_length.simps) simp
    have "nat ?b = Suc (nat (?b - 1))" using IH(1) by simp
    then have "(2::int) ^ nat ?b = 2 * 2 ^ nat (?b - 1)" by simp
    with IH(2) have lower: "(2::int) ^ nat ?b \<le> n" by linarith
    have "nat (1 + ?b) = Suc (nat ?b)" using IH(1) by simp
    then have "(2::int) ^ nat (1 + ?b) = 2 * 2 ^ nat ?b" by simp
    with IH(3) have upper: "n < 2 ^ nat (1 + ?b)" by linarith
    show ?thesis using IH(1) lower upper by (simp add: bl)
  qed
qed

lemma pow2_powi: "pow2 k = 2 powi k"
  by (simp add: pow2_def power_int_def inverse_eq_divide power_one_over)

lemma pow2_pos: "0 < pow2 k"
  by (simp add: pow2_powi)

lemma floor_log2_lower:
  assumes "0 < q"
  shows "pow2 (floor_log2 q) \<le> q"
proof -
  obtain a b where ab: "quotient_of q = (a, b)" by (cases "quotient_of q")
  then have b: "0 < b" and q: "q = of_int a / of_int b"
    by (simp_all add: quotient_of_denom_pos quotient_of_div)
  with assms have a: "0 < a" by (simp add: zero_less_divide_iff)
  let ?A = "bit_length a" and ?B = "bit_length b"
  from bit_length_bounds [OF a] have A: "1 \<le> ?A" "2 ^ nat (?A - 1) \<le> a" by simp_all
  from bit_length_bounds [OF b] have B: "1 \<le> ?B" "b < 2 ^ nat ?B" by simp_all
  have "(2::rat) powi (?A - 1) = of_int (2 ^ nat (?A - 1))"
    using A(1) by (simp add: power_int_def)
  also have "\<dots> \<le> of_int a" using A(2) by (simp only: of_int_le_iff)
  finally have num: "(2::rat) powi (?A - 1) \<le> of_int a" .
  have "(of_int b :: rat) \<le> of_int (2 ^ nat ?B)" using B(2) by (simp only: of_int_le_iff)
  also have "\<dots> = 2 powi ?B" using B(1) by (simp add: power_int_def)
  finally have den: "(of_int b :: rat) \<le> 2 powi ?B" .
  have "(2::rat) powi (?A - ?B - 1) = 2 powi (?A - 1) / 2 powi ?B"
    by (simp add: power_int_diff [symmetric] algebra_simps)
  also have "\<dots> \<le> of_int a / 2 powi ?B"
    using num by (simp add: divide_right_mono)
  also have "\<dots> \<le> of_int a / of_int b"
    using den a b by (simp add: divide_left_mono)
  finally have low: "pow2 (?A - ?B - 1) \<le> q" by (simp add: pow2_powi q)
  show ?thesis
    using low by (simp add: floor_log2_def ab Let_def)
qed

lemma round_half_even_ge_floor: "\<lfloor>m\<rfloor> \<le> round_half_even m"
  by (simp add: round_half_even_def Let_def)

lemma round_double_pos:
  assumes "0 < q"
  shows "0 < round_double q"
proof -
  let ?ulp = "pow2 (floor_log2 q - 52)"
  have "?ulp \<le> pow2 (floor_log2 q)"
    by (simp add: pow2_powi power_int_increasing)
  with floor_log2_lower [OF assms] have "?ulp \<le> q" by simp
  then have "1 \<le> q / ?ulp" using pow2_pos [of "floor_log2 q - 52"] by (simp add: le_divide_eq)
  then have "1 \<le> \<lfloor>q / ?ulp\<rfloor>" by simp
  with round_half_even_ge_floor [of "q / ?ulp"] have "0 < round_half_even (q / ?ulp)"
    by linarith
  then have "0 < (of_int (round_half_even (q / ?ulp)) :: rat) * ?ulp"
    using pow2_pos [of "floor_log2 q - 52"] by simp
  then show ?thesis using assms by (simp add: round_double_def Let_def)
qed

lemma round_double_nonneg: "0 \<le> q \<Longrightarrow> 0 \<le> round_double q"
  using round_double_pos [of q] by (cases "q = 0") (simp_all add: round_double_def less_imp_le)

lemma dest_height_of_returns:
  assumes "0 < bm_width img" "0 < dest_width"
  shows "\<exists>H. dest_height_of img dest_width = Inr H \<and> 0 \<le> H \<and> even H"
proof -
  let ?scale = "round_double (of_int (int (bm_width img)) / of_int dest_width)"
  let ?q = "round_double (round_double (of_int (int (bm_height img))) / ?scale)"
  have scale: "0 < ?scale" using assms by (intro round_double_pos) simp
  have "0 \<le> round_double (of_int (int (bm_height img)))"
    by (intro round_double_nonneg) simp
  with scale have "0 \<le> ?q" by (intro round_double_nonneg) simp
  then have trunc: "0 \<le> int_of_float ?q" by (simp add: int_of_float_def)
  have "dest_height_of img dest_width =
          Inr (if int_of_float ?q mod 2 \<noteq> 0 then int_of_float ?q + 1 else int_of_float ?q)"
    using assms scale by (simp add: dest_height_of_def int_truediv_def int_float_truediv_def Let_def)
  then show ?thesis using trunc by auto
qed

lemma dest_height_of_error:
  "dest_height_of img dest_width = Inl e \<Longrightarrow> e = ZeroDivisionError"
  by (auto simp: dest_height_of_def int_truediv_def int_float_truediv_def Let_def
        split: sum.splits if_splits)

lemma floor_log2_upper:
  assumes "0 < q"
  shows "q < pow2 (floor_log2 q + 1)"
proof -
  obtain a b where ab: "quotient_of q = (a, b)" by (cases "quotient_of q")
  then have b: "0 < b" and q: "q = of_int a / of_int b"
    by (simp_all add: quotient_of_denom_pos quotient_of_div)
  with assms have a: "0 < a" by (simp add: zero_less_divide_iff)
  let ?A = "bit_length a" and ?B = "bit_length b"
  from bit_length_bounds [OF a] have A: "1 \<le> ?A" "a < 2 ^ nat ?A" by simp_all
  from bit_length_bounds [OF b] have B: "1 \<le> ?B" "2 ^ nat (?B - 1) \<le> b" by simp_all
  have "(of_int a :: rat) < of_int (2 ^ nat ?A)" using A(2) by (simp only: of_int_less_iff)
  also have "\<dots> = 2 powi ?A" using A(1) by (simp add: power_int_def)
  finally have num: "(of_int a :: rat) < 2 powi ?A" .
  have "(2::rat) powi (?B - 1) = of_int (2 ^ nat (?B - 1))"
    using B(1) by (simp add: power_int_def)
  also have "\<dots> \<le> of_int b" using B(2) by (simp only: of_int_le_iff)
  finally have den: "(2::rat) powi (?B - 1) \<le> of_int b" .
  have "of_int a / of_int b < (2::rat) powi ?A / of_int b"
    using num b by (simp add: divide_strict_right_mono)
  also have "\<dots> \<le> 2 powi ?A / 2 powi (?B - 1)"
    using den b by (intro divide_left_mono) (simp_all add: zero_less_mult_iff)
  also have "\<dots> = 2 powi (?A - ?B + 1)"
    by (simp add: power_int_diff [symmetric] algebra_simps)
  finally have high: "q < pow2 (?A - ?B + 1)" by (simp add: pow2_powi q)
  show ?thesis
    using high by (auto simp: floor_log2_def ab Let_def not_le)
qed

text \<open>
  The rounding on known values: 5/2 is a float, 1/10 is rounded to the binary64
  number nearest to it, and an integer of 54 bits halfway between two floats goes to
  the one with the even significand.
\<close>

lemma round_double_examples:
  "round_double (5 / 2) = 5 / 2"
  "round_double (1 / 10) = 3602879701896397 / 36028797018963968"
  "round_double 9007199254740993 = 9007199254740992"
  "round_double 9007199254740995 = 9007199254740996"
  by code_simp+

section \<open>The rasterizer on the example bitmap\<close>

lemma example_dest_height: "dest_height_of (solid_bitmap 160 5) 80 = Inr 2"
  by code_simp

lemma example_resized:
  "nearest_resize (solid_bitmap 160 5) (80, 2) =
     Inr \<lparr>bm_width = 80, bm_height = 2, bm_data = (\<lambda>x y. Bands [255, 128, 0])\<rparr>"
  by (simp add: nearest_resize_def solid_bitmap_def)

lemma example_rgb:
  "rgb_bitmap \<lparr>bm_width = 80, bm_height = 2, bm_data = (\<lambda>x y. Bands [255, 128, 0])\<rparr>"
  by (simp add: rgb_bitmap_def)

lemma example_image_string:
  "\<exists>out. img_to_string nearest_resize (solid_bitmap 160 5) 80 unicode = Inr out"
  using img_to_string_grid(2) [where resize = nearest_resize and unicode = unicode,
      OF example_dest_height example_resized]
  by (simp add: example_rgb)

lemma example_line_count:
  "line_count (img_to_string nearest_resize (solid_bitmap 160 5) 80 True) = Some 1"
proof -
  obtain out where out: "img_to_string nearest_resize (solid_bitmap 160 5) 80 True = Inr out"
    using example_image_string by blast
  have "length (lines_of out) = nat (2 div 2)"
    using img_to_string_grid(3) [where resize = nearest_resize and unicode = True and out = out,
        OF example_dest_height example_resized]
    by (simp add: out)
  then show ?thesis by (simp add: line_count_def out)
qed

lemma example_spec_height: "spec_adjusted_height 160 5 80 = 4"
  by code_simp

text \<open>
  C4 (as amended). For a bitmap of positive width and the destination width 80,
  let \<open>H\<close> be the height the code computes: the float quotient of the height by the
  scale, truncated by \<^verbatim>\<open>int\<close> (not rounded up) and bumped by one when odd. When the
  resampler returns a bitmap of 80 by \<open>H\<close> pixels of three bands, the rasterizer
  returns a string of exactly \<open>H / 2\<close> lines, and every line is the markup of
  exactly 80 character cells.
\<close>

theorem rasterize_rows_and_cells:
  assumes width: "0 < bm_width img"
    and resized: "\<And>H. dest_height_of img 80 = Inr H \<Longrightarrow>
        \<exists>img'. resize img (80, H) = Inr img' \<and> bm_width img' = 80
          \<and> int (bm_height img') = H \<and> rgb_bitmap img'"
  shows "\<exists>H out. dest_height_of img 80 = Inr H \<and> even H
           \<and> img_to_string resize img 80 True = Inr out
           \<and> length (lines_of out) = nat (H div 2)
           \<and> (\<forall>line \<in> set (lines_of out). \<exists>cells. line = concat cells
                 \<and> length cells = 80 \<and> (\<forall>c \<in> set cells. is_cell True c))"
proof -
  from dest_height_of_returns [OF width, of 80] obtain H where
    H: "dest_height_of img 80 = Inr H" "even H"
    by auto
  from resized [OF H(1)] obtain img' where
    img': "resize img (80, H) = Inr img'" "int (bm_width img') = 80"
      "int (bm_height img') = H" "rgb_bitmap img'"
    by auto
  from img_to_string_grid(2) [where resize = resize and unicode = True, OF H(1) img']
  obtain out where out: "img_to_string resize img 80 True = Inr out"
    by blast
  from img_to_string_grid(3) [where resize = resize, OF H(1) img'(1,2,3) out]
  have "length (lines_of out) = nat (H div 2)
        \<and> (\<forall>line \<in> set (lines_of out). \<exists>cells. line = concat cells
              \<and> length cells = 80 \<and> (\<forall>c \<in> set cells. is_cell True c))"
    by simp
  with H out show ?thesis by blast
qed

theorem rasterize_rows_and_cells_witness:
  "line_count (img_to_string nearest_resize (solid_bitmap 160 5) 80 True) = Some (nat (2 div 2))"
proof -
  have width: "0 < bm_width (solid_bitmap 160 5)"
    by (simp add: solid_bitmap_def)
  have resized: "\<exists>img'. nearest_resize (solid_bitmap 160 5) (80, H) = Inr img'
      \<and> bm_width img' = 80 \<and> int (bm_height img') = H \<and> rgb_bitmap img'"
    if "dest_height_of (solid_bitmap 160 5) 80 = Inr H" for H
  proof -
    from that have "H = 2" by (simp add: example_dest_height)
    then show ?thesis by (simp add: example_resized example_rgb)
  qed
  from rasterize_rows_and_cells [of "solid_bitmap 160 5" nearest_resize, OF width resized]
  obtain H out where
    "dest_height_of (solid_bitmap 160 5) 80 = Inr H"
    "img_to_string nearest_resize (solid_bitmap 160 5) 80 True = Inr out"
    "length (lines_of out) = nat (H div 2)"
    by blast
  then show ?thesis by (simp add: example_dest_height line_count_def)
qed

theorem rasterize_line_count_counterexample:
  "line_count (img_to_string nearest_resize (solid_bitmap 160 5) 80 True)
     \<noteq> Some (nat (spec_adjusted_height 160 5 80 div 2))"
  by (simp add: example_line_count example_spec_height)

text \<open>
  C9. Whenever the resampler returns a bitmap of the size it was asked for, every
  pixel read of the two loops is inside that bitmap, in both modes: for each
  row index \<open>y\<close> of \<^verbatim>\<open>range(0, dest_height, 2)\<close> and each column \<open>x\<close> of
  \<^verbatim>\<open>range(dest_width)\<close> the reads at \<open>(x, y)\<close> and \<open>(x, y + 1)\<close> do not raise, and
  the rasterizer never ends in the out-of-bounds error of \<^verbatim>\<open>getpixel\<close>.
\<close>

theorem getpixel_never_out_of_bounds:
  assumes contract: "\<And>sz img'. resize img sz = Inr img' \<Longrightarrow>
                       (int (bm_width img'), int (bm_height img')) = sz"
  shows "img_to_string resize img dest_width unicode \<noteq> Inl IndexError
       \<and> (\<forall>H img' x y. dest_height_of img dest_width = Inr H
             \<and> resize img (dest_width, H) = Inr img'
             \<and> y \<in> set (py_range 0 H 2) \<and> x \<in> set (py_range 0 dest_width 1) \<longrightarrow>
             getpixel img' (x, y) \<noteq> Inl IndexError
             \<and> getpixel img' (x, y + 1) \<noteq> Inl IndexError)"
proof
  show "img_to_string resize img dest_width unicode \<noteq> Inl IndexError"
  proof (cases "dest_height_of img dest_width")
    case (Inl e)
    then have "e = ZeroDivisionError" by (rule dest_height_of_error)
    with Inl show ?thesis by (simp add: img_to_string_def)
  next
    case (Inr H)
    show ?thesis
    proof (cases "resize img (dest_width, H)")
      case (Inl name)
      with Inr show ?thesis by (simp add: img_to_string_def lift_lib_def)
    next
      case resized: (Inr img')
      from contract [OF resized] have "int (bm_width img') = dest_width"
        "int (bm_height img') = H" by simp_all
      with img_to_string_grid(1) [where resize = resize, OF Inr resized] show ?thesis
        by simp
    qed
  qed
  show "\<forall>H img' x y. dest_height_of img dest_width = Inr H
             \<and> resize img (dest_width, H) = Inr img'
             \<and> y \<in> set (py_range 0 H 2) \<and> x \<in> set (py_range 0 dest_width 1) \<longrightarrow>
             getpixel img' (x, y) \<noteq> Inl IndexError
             \<and> getpixel img' (x, y + 1) \<noteq> Inl IndexError"
  proof (intro allI impI, elim conjE)
    fix H img' x y
    assume H: "dest_height_of img dest_width = Inr H"
      and resized: "resize img (dest_width, H) = Inr img'"
      and y: "y \<in> set (py_range 0 H 2)" and x: "x \<in> set (py_range 0 dest_width 1)"
    from contract [OF resized] have size: "int (bm_width img') = dest_width"
      "int (bm_height img') = H" by simp_all
    from py_range_member [OF x] size have xb: "0 \<le> x" "x < int (bm_width img')" by simp_all
    from py_range_member [OF y] have "0 \<le> y" "y < H" "y mod 2 = 0" by simp_all
    moreover have "even H" using H by (rule dest_height_of_even)
    ultimately have yb: "0 \<le> y" "y + 1 < int (bm_height img')" "0 \<le> y + 1"
      "y < int (bm_height img')"
      using size by presburger+
    show "getpixel img' (x, y) \<noteq> Inl IndexError \<and> getpixel img' (x, y + 1) \<noteq> Inl IndexError"
      using xb yb by (simp add: getpixel_inside)
  qed
qed

theorem getpixel_never_out_of_bounds_witness:
  "img_to_string nearest_resize (solid_bitmap 160 5) 80 True \<noteq> Inl IndexError"
proof -
  have contract: "(int (bm_width img'), int (bm_height img')) = sz"
    if "nearest_resize (solid_bitmap 160 5) sz = Inr img'" for sz img'
    using that by (cases sz) (auto simp: nearest_resize_def split: if_splits)
  from getpixel_never_out_of_bounds [of nearest_resize "solid_bitmap 160 5" 80 True, OF contract]
  show ?thesis by simp
qed

text \<open>
  C3 (the code departs from the claim). The two statements that show the MIME
  string touch no style class: selected after an image, a file of another top-level
  type leaves the pane as the image view left it apart from content and subtitle,
  with the class \<^verbatim>\<open>image\<close> on the preview and \<^verbatim>\<open>image-view\<close> on its container.
\<close>

theorem raw_label_after_image_keeps_image_class:
  "on_directory_tree_file_selected example_env
      (on_image_view example_env initial_pane (ascii ''photo.png'')) (ascii ''song.mp3'') =
     Inr ((on_image_view example_env initial_pane (ascii ''photo.png''))
            \<lparr>content := StrR (ascii ''audio/mpeg''),
              sub_title := ReactiveObj (ascii ''Mime Type'')\<rparr>)
   \<and> preview_classes (on_image_view example_env initial_pane (ascii ''photo.png'')) = {''image''}
   \<and> viewbox_classes (on_image_view example_env initial_pane (ascii ''photo.png'')) =
       {''image-view''}"
proof -
  obtain out where out: "img_to_string nearest_resize (solid_bitmap 160 5) 80 True = Inr out"
    using example_image_string by blast
  have shown: "on_image_view example_env initial_pane (ascii ''photo.png'') =
      initial_pane\<lparr>viewbox_classes := {''image-view''}, preview_classes := {''image''},
                   content := StrR out, sub_title := SubStr (ascii ''photo.png'')\<rparr>"
    by (simp add: on_image_view_def lift_lib_def example_env_def out initial_pane_def)
  have sniff: "magic_from_file example_env (ascii ''song.mp3'') = Inr (ascii ''audio/mpeg'')"
    by (simp add: example_env_def example_sniff_def sniff_table_def ascii_def)
  have tlt: "top_level_type (ascii ''audio/mpeg'') = ascii ''audio''"
    by (simp add: top_level_type_def ascii_def)
  have differ: "ascii ''audio'' \<noteq> ascii ''application''" "ascii ''audio'' \<noteq> ascii ''text''"
    "ascii ''audio'' \<noteq> ascii ''image''"
    by (simp_all add: ascii_def)
  have "on_directory_tree_file_selected example_env st (ascii ''song.mp3'') =
          Inr (st\<lparr>content := StrR (ascii ''audio/mpeg''),
                  sub_title := ReactiveObj (ascii ''Mime Type'')\<rparr>)" for st
    using sniff by (simp add: on_directory_tree_file_selected_def lift_lib_def Let_def tlt differ)
  then show ?thesis by (simp add: shown)
qed

section \<open>The checkbox substitutions\<close>

lemma replace_from_Nil: "replace_from old new [] = []"
  by (simp add: replace_from.simps)

lemma replace_from_hit:
  "old \<noteq> [] \<Longrightarrow> replace_from old new (old @ rest) = new @ replace_from old new rest"
  by (subst replace_from.simps) simp

lemma replace_from_miss:
  "\<not> prefix old (c # cs) \<Longrightarrow> replace_from old new (c # cs) = c # replace_from old new cs"
  by (subst replace_from.simps) simp

lemma empty_box_pattern: "ascii ''-[ ]'' = [45, 91, 32, 93]"
  and crossed_box_pattern: "ascii ''-[x]'' = [45, 91, 120, 93]"
  and dash_space: "ascii ''- '' = [45, 32]"
  by (simp_all add: ascii_def)

lemma replace_from_head:
  fixes u :: ustr
  assumes "replace_from (45 # old) (45 # new) u = a # v" "a \<noteq> 45"
  shows "\<exists>u'. u = a # u' \<and> v = replace_from (45 # old) (45 # new) u'"
proof (cases u)
  case Nil
  with assms show ?thesis by (simp add: replace_from_Nil)
next
  case (Cons c cs)
  show ?thesis
  proof (cases "prefix (45 # old) (c # cs)")
    case True
    then obtain rest where "c # cs = (45 # old) @ rest" by (auto simp: prefix_def)
    with assms Cons show ?thesis
      using replace_from_hit [of "45 # old" "45 # new" rest] by simp
  next
    case False
    with assms Cons show ?thesis by (simp add: replace_from_miss)
  qed
qed

lemma replace_from_prefix_kept:
  fixes u :: ustr
  shows "prefix w (replace_from (45 # old) (45 # new) u) \<Longrightarrow> 45 \<notin> set w \<Longrightarrow> prefix w u"
proof (induction w arbitrary: u)
  case Nil
  show ?case by simp
next
  case (Cons a w)
  let ?r = "replace_from (45 # old) (45 # new) u"
  from Cons.prems(1) obtain b v where bv: "?r = b # v"
    by (cases ?r) simp_all
  from Cons.prems(1) have "prefix (a # w) (b # v)"
    by (simp only: bv)
  then have ab: "a = b" and w: "prefix w v"
    by (simp_all only: Cons_prefix_Cons)
  from Cons.prems(2) have a: "a \<noteq> 45" and w45: "45 \<notin> set w"
    by auto
  from bv ab have v: "?r = a # v" by (simp only:)
  from replace_from_head [OF v a] obtain u' where
    u: "u = a # u'" and v': "v = replace_from (45 # old) (45 # new) u'"
    by blast
  from w have "prefix w (replace_from (45 # old) (45 # new) u')"
    by (simp only: v')
  then have "prefix w u'" using w45 by (rule Cons.IH)
  then show ?case by (simp only: u Cons_prefix_Cons simp_thms)
qed

lemma checkbox_markup_eq_spec: "checkbox_markup s = spec_checkboxes s"
proof -
  let ?R1 = "replace_from [45, 91, 32, 93] [45, 32, ballot_box]"
  let ?R2 = "replace_from [45, 91, 120, 93] [45, 32, ballot_box_x]"
  have markup: "checkbox_markup t = ?R2 (?R1 t)" for t
    by (simp add: checkbox_markup_def replace_def empty_box_pattern crossed_box_pattern
          dash_space)
  have through_new: "?R2 (45 # 32 # ballot_box # t) = 45 # 32 # ballot_box # ?R2 t" for t
    by (simp add: replace_from_miss ballot_box_def)
  have through_old: "?R1 (45 # 91 # 120 # 93 # t) = 45 # 91 # 120 # 93 # ?R1 t" for t
    by (simp add: replace_from_miss)
  have "?R2 (?R1 s) = spec_checkboxes s"
  proof (induction s rule: spec_checkboxes.induct)
    case (1 s)
    show ?case
    proof (cases "s = []")
      case True
      then show ?thesis by (simp add: replace_from_Nil spec_checkboxes.simps)
    next
      case nonempty: False
      show ?thesis
      proof (cases "prefix [45, 91, 32, 93] s")
        case True
        then obtain rest where s: "s = [45, 91, 32, 93] @ rest" by (auto simp: prefix_def)
        then have rest: "drop 4 s = rest" by simp
        have "?R1 s = [45, 32, ballot_box] @ ?R1 rest"
          unfolding s by (rule replace_from_hit) simp
        then have "?R2 (?R1 s) = 45 # 32 # ballot_box # ?R2 (?R1 rest)"
          by (simp add: through_new)
        moreover have "?R2 (?R1 rest) = spec_checkboxes rest"
          using "1.IH"(1) nonempty True rest by (simp add: empty_box_pattern)
        moreover have "spec_checkboxes s = 45 # 32 # ballot_box # spec_checkboxes rest"
          using nonempty True rest
          by (subst spec_checkboxes.simps) (simp add: empty_box_pattern dash_space)
        ultimately show ?thesis by simp
      next
        case not_empty_box: False
        show ?thesis
        proof (cases "prefix [45, 91, 120, 93] s")
          case True
          then obtain rest where s: "s = [45, 91, 120, 93] @ rest" by (auto simp: prefix_def)
          then have rest: "drop 4 s = rest" by simp
          have "?R1 s = [45, 91, 120, 93] @ ?R1 rest"
            unfolding s by (simp add: through_old)
          then have "?R2 (?R1 s) = [45, 32, ballot_box_x] @ ?R2 (?R1 rest)"
            by (simp only: replace_from_hit list.distinct not_False_eq_True)
          moreover have "?R2 (?R1 rest) = spec_checkboxes rest"
            using "1.IH"(2) nonempty not_empty_box True rest
            by (simp add: empty_box_pattern crossed_box_pattern)
          moreover have "spec_checkboxes s = 45 # 32 # ballot_box_x # spec_checkboxes rest"
            using nonempty not_empty_box True rest
            by (subst spec_checkboxes.simps)
               (simp add: empty_box_pattern crossed_box_pattern dash_space)
          ultimately show ?thesis by simp
        next
          case not_crossed_box: False
          from nonempty obtain c cs where s: "s = c # cs" by (cases s) auto
          have R1: "?R1 s = c # ?R1 cs"
            using not_empty_box unfolding s by (rule replace_from_miss)
          have "\<not> prefix [45, 91, 120, 93] (c # ?R1 cs)"
          proof
            assume hit: "prefix [45, 91, 120, 93] (c # ?R1 cs)"
            then have "c = 45" and "prefix [91, 120, 93] (?R1 cs)" by simp_all
            from replace_from_prefix_kept [OF this(2)] have "prefix [91, 120, 93] cs" by simp
            with \<open>c = 45\<close> not_crossed_box s show False by simp
          qed
          then have "?R2 (c # ?R1 cs) = c # ?R2 (?R1 cs)" by (rule replace_from_miss)
          moreover have "?R2 (?R1 cs) = spec_checkboxes cs"
            using "1.IH"(3) nonempty not_empty_box not_crossed_box s
            by (simp add: empty_box_pattern crossed_box_pattern)
          moreover have "spec_checkboxes s = c # spec_checkboxes cs"
            using nonempty not_empty_box not_crossed_box s
            by (subst spec_checkboxes.simps) (auto simp: empty_box_pattern crossed_box_pattern)
          ultimately show ?thesis by (simp add: R1)
        qed
      qed
    qed
  qed
  then show ?thesis by (simp add: markup)
qed

text \<open>
  C5. When the file can be read, the markdown object shown is built from the
  file's text with every literal \<^verbatim>\<open>-[ ]\<close> and every literal \<^verbatim>\<open>-[x]\<close> replaced by
  its box, the two calls of \<^verbatim>\<open>replace\<close> having run before the renderer is given the
  text. When reading fails, the pane shows the traceback under the error marker.
\<close>

theorem markdown_checkboxes_replaced:
  "(\<forall>text. read_text ev path = Inr text \<longrightarrow>
      content (on_markdown_view ev st path) = MarkdownR (spec_checkboxes text))
   \<and> (\<forall>name. read_text ev path = Inl name \<longrightarrow>
      on_markdown_view ev st path =
        st\<lparr>content := TracebackR (LibraryError name), sub_title := ErrorWarning\<rparr>)"
  by (simp add: on_markdown_view_def lift_lib_def scroll_home_def on_exception_def
        checkbox_markup_eq_spec)

theorem markdown_checkboxes_replaced_witness:
  "content (on_markdown_view example_env initial_pane (ascii ''notes.md'')) =
     MarkdownR (ascii ''- '' @ [ballot_box] @ ascii '' milk - '' @ [ballot_box_x] @ ascii '' eggs'')"
proof -
  have r: "read_text example_env (ascii ''notes.md'') = Inr (ascii ''-[ ] milk -[x] eggs'')"
    by (simp add: example_env_def)
  have "spec_checkboxes (ascii ''-[ ] milk -[x] eggs'') =
          ascii ''- '' @ [ballot_box] @ ascii '' milk - '' @ [ballot_box_x] @ ascii '' eggs''"
    by code_simp
  with markdown_checkboxes_replaced [of example_env "ascii ''notes.md''" initial_pane] r
  show ?thesis by simp
qed


end
